theory Spec2Isabelle
  imports Main "HOL-Library.Word" "HOL-Library.Multiset"
begin

unbundle bit_operations_syntax

section \<open>Data model of trashmap.h\<close>

text \<open>
  The embedding follows \<^verbatim>\<open>trashmap.h\<close> on an LP64 platform:
  \<^item> \<^verbatim>\<open>uint32_t\<close> is \<open>32 word\<close>, so hashes, slot indices and probe positions wrap
    as in C;
  \<^item> \<^verbatim>\<open>size_t\<close> is a natural number below \<open>2 ^ 64\<close>, and every \<^verbatim>\<open>size_t\<close>
    addition and multiplication of the source is written with \<open>mod 2 ^ 64\<close>;
  \<^item> a \<^verbatim>\<open>const char *\<close> is an address; the bytes a pointer points to are read
    from a memory \<open>mem\<close>, which maps an address to the bytes stored there. Reading a
    C string stops at the first zero byte (or at the end of the list, which stands for
    the terminator). The table stores addresses, never bytes;
  \<^item> an array is a list of its elements. \<^verbatim>\<open>sizeof(trashmap_slot_t)\<close> is 8 and
    \<^verbatim>\<open>sizeof(trashmap_item_t)\<close> is 16, and an allocation of \<open>n\<close> bytes holds
    \<open>n div sizeof\<close> elements;
  \<^item> the allocator is a parameter \<open>alloc\<close> of the operations that allocate:
    \<open>alloc len\<close> tells whether a request of \<open>len\<close> bytes is served, and a request
    that is not served returns \<^verbatim>\<open>NULL\<close>, which is \<open>None\<close>;
  \<^item> the ways a call can end without returning are values of type \<open>fault\<close>:
    \<open>Out_Of_Memory\<close> is the failure of an assertion \<^verbatim>\<open>"out of memory"\<close>,
    \<open>Assert_Failed\<close> the failure of one of the other two assertions (the slot count
    of \<^verbatim>\<open>trashmap_init\<close>, \<^verbatim>\<open>"corrupted hash map"\<close> in \<^verbatim>\<open>trashmap_set\<close>),
    \<open>Null_Dereference\<close> a write through \<^verbatim>\<open>NULL\<close>, \<open>Out_Of_Bounds\<close> an access
    outside an array, \<open>Div_By_Zero\<close> a remainder by zero; a computation that does not
    return at all is \<open>None\<close>.
\<close>

type_synonym cptr = nat
type_synonym memory = "cptr \<Rightarrow> 8 word list"
type_synonym allocator = "nat \<Rightarrow> bool"

definition NULL :: cptr where
  "NULL = 0"

definition UINT32_MAX :: "32 word" where
  "UINT32_MAX = 0xFFFFFFFF"

datatype fault =
  Assert_Failed | Out_Of_Memory | Null_Dereference | Out_Of_Bounds | Div_By_Zero

record trashmap_slot_t =
  hash :: "32 word"
  index :: "32 word"

record trashmap_item_t =
  key :: cptr
  value_ref :: cptr

record trashmap_t =
  slots :: "trashmap_slot_t list"
  items :: "trashmap_item_t list"
  slot_count :: nat
  count :: nat
  capacity :: nat

section \<open>Hashing and string comparison\<close>

text \<open>The body of the loop of \<^verbatim>\<open>trashmap_hash\<close> after the XOR: the shift-add chain.\<close>

definition shift_add :: "32 word \<Rightarrow> 32 word" where
  "shift_add h =
     h + push_bit 1 h + push_bit 4 h + push_bit 7 h + push_bit 8 h + push_bit 24 h"

fun trashmap_hash_loop :: "32 word \<Rightarrow> 8 word list \<Rightarrow> 32 word" where
  "trashmap_hash_loop h [] = h"
| "trashmap_hash_loop h (c # str) =
     (if c = 0 then h else trashmap_hash_loop (shift_add (h XOR ucast c)) str)"

definition FNV_1A_OFFSET_BASIS :: "32 word" where
  "FNV_1A_OFFSET_BASIS = 2166136261"

definition trashmap_hash :: "8 word list \<Rightarrow> 32 word" where
  "trashmap_hash k = trashmap_hash_loop FNV_1A_OFFSET_BASIS k"

text \<open>
  The FNV-1a reference, following the words of the specification: start from the offset
  basis, and for each byte of the key (the bytes before the terminator) XOR the byte
  into the hash, then multiply by the prime, modulo \<open>2 ^ 32\<close>.
\<close>

definition cstr :: "8 word list \<Rightarrow> 8 word list" where
  "cstr bs = takeWhile (\<lambda>b. b \<noteq> 0) bs"

definition fnv1a_reference :: "8 word list \<Rightarrow> 32 word" where
  "fnv1a_reference k =
     fold (\<lambda>b h. (h XOR ucast b) * 16777619) (cstr k) 2166136261"

text \<open>
  \<^verbatim>\<open>trashmap_strcmp\<close>. Plain \<^verbatim>\<open>char\<close> is signed on the modelled platform, so a
  byte is read with \<open>sint\<close>; the difference of two bytes fits an \<^verbatim>\<open>int\<close>.
\<close>

fun trashmap_strcmp :: "8 word list \<Rightarrow> 8 word list \<Rightarrow> int" where
  "trashmap_strcmp (l # lhs) (r # rhs) =
     (if l \<noteq> 0 \<and> r \<noteq> 0
      then (let diff = sint r - sint l in
            if diff \<noteq> 0 then diff else trashmap_strcmp lhs rhs)
      else sint r - sint l)"
| "trashmap_strcmp [] (r # rhs) = sint r - sint (0 :: 8 word)"
| "trashmap_strcmp (l # lhs) [] = sint (0 :: 8 word) - sint l"
| "trashmap_strcmp [] [] = sint (0 :: 8 word) - sint (0 :: 8 word)"

section \<open>Allocation and memset on slot and item arrays\<close>

definition fill_slot :: "8 word \<Rightarrow> trashmap_slot_t" where
  "fill_slot byte = \<lparr>hash = ucast byte * 0x01010101, index = ucast byte * 0x01010101\<rparr>"

text \<open>\<^verbatim>\<open>TRASHMAP_ALLOC\<close> for a slot array: \<^verbatim>\<open>NULL\<close> when the request is not served.\<close>

definition alloc_slots :: "allocator \<Rightarrow> nat \<Rightarrow> trashmap_slot_t list option" where
  "alloc_slots alloc len =
     (if alloc len then Some (replicate (len div 8) \<lparr>hash = 0, index = 0\<rparr>) else None)"

text \<open>
  \<^verbatim>\<open>trashmap_memset\<close> on a slot array: \<open>cnt\<close> is a number of bytes, and every call
  of the source passes a multiple of 8.
\<close>

definition trashmap_memset ::
  "trashmap_slot_t list \<Rightarrow> 8 word \<Rightarrow> nat \<Rightarrow> fault + trashmap_slot_t list" where
  "trashmap_memset dest byte cnt =
     (if 8 * length dest < cnt then Inl Out_Of_Bounds
      else Inr (replicate (cnt div 8) (fill_slot byte) @ drop (cnt div 8) dest))"

text \<open>
  \<^verbatim>\<open>trashmap_memset\<close> on the result of \<^verbatim>\<open>TRASHMAP_ALLOC\<close>, as the source calls it
  before it tests the pointer: on \<^verbatim>\<open>NULL\<close> the loop writes through the null pointer
  as soon as \<open>cnt\<close> is not 0, and returns \<^verbatim>\<open>NULL\<close> when \<open>cnt\<close> is 0.
\<close>

definition memset_alloc ::
  "trashmap_slot_t list option \<Rightarrow> 8 word \<Rightarrow> nat \<Rightarrow> fault + trashmap_slot_t list option"
  where
  "memset_alloc p byte cnt =
     (case p of
        None \<Rightarrow> if 0 < cnt then Inl Null_Dereference else Inr None
      | Some dest \<Rightarrow>
          (case trashmap_memset dest byte cnt of Inl e \<Rightarrow> Inl e | Inr s \<Rightarrow> Inr (Some s)))"

text \<open>
  \<^verbatim>\<open>TRASHMAP_REALLOC\<close> on the item arena: \<^verbatim>\<open>NULL\<close> when the request is not
  served; otherwise the old entries keep their indices, and the cells beyond them hold
  no entry yet.
\<close>

definition realloc_items ::
  "allocator \<Rightarrow> trashmap_item_t list \<Rightarrow> nat \<Rightarrow> trashmap_item_t list option" where
  "realloc_items alloc its len =
     (if alloc len
      then Some (take (len div 16) its @
                 replicate (len div 16 - length its) \<lparr>key = NULL, value_ref = NULL\<rparr>)
      else None)"

section \<open>The operations\<close>

definition trashmap_init :: "allocator \<Rightarrow> nat \<Rightarrow> fault + trashmap_t" where
  "trashmap_init alloc cnt =
     (if cnt = 0 then Inl Assert_Failed
      else let len = cnt * 8 mod 2 ^ 64 in
        case memset_alloc (alloc_slots alloc len) 0xFF len of
          Inl e \<Rightarrow> Inl e
        | Inr None \<Rightarrow> Inl Out_Of_Memory
        | Inr (Some s) \<Rightarrow>
            Inr \<lparr>slots = s, items = [], slot_count = cnt, count = 0, capacity = 0\<rparr>)"

definition trashmap_clear :: "trashmap_t \<Rightarrow> fault + trashmap_t" where
  "trashmap_clear m =
     (case trashmap_memset (slots m) 0xFF (slot_count m * 8 mod 2 ^ 64) of
        Inl e \<Rightarrow> Inl e
      | Inr s \<Rightarrow> Inr (m\<lparr>count := 0, slots := s\<rparr>))"

text \<open>
  The test \<^verbatim>\<open>bhash == hash && trashmap_strcmp(key, map->items[bidx].key) == 0\<close> of
  the three probe loops; the item is read only when the hashes agree.
\<close>

definition key_matches ::
  "memory \<Rightarrow> trashmap_t \<Rightarrow> cptr \<Rightarrow> 32 word \<Rightarrow> 32 word \<Rightarrow> 32 word \<Rightarrow> fault + bool" where
  "key_matches mem m k h bhash bidx =
     (if bhash = h
      then (if length (items m) \<le> unat bidx then Inl Out_Of_Bounds
            else Inr (trashmap_strcmp (mem k) (mem (key (items m ! unat bidx))) = 0))
      else Inr False)"

text \<open>
  The do-while loop of \<^verbatim>\<open>trashmap_get\<close>. The last argument counts the slots
  visited before this one; the loop returns its result with the number of slots visited.
\<close>

partial_function (option) trashmap_get_loop ::
  "memory \<Rightarrow> trashmap_t \<Rightarrow> cptr \<Rightarrow> 32 word \<Rightarrow> 32 word \<Rightarrow> 32 word \<Rightarrow> nat \<Rightarrow>
   ((fault + cptr) \<times> nat) option" where
  "trashmap_get_loop mem m k h start idx n =
     (if length (slots m) \<le> unat idx then Some (Inl Out_Of_Bounds, Suc n)
      else
        let bhash = hash (slots m ! unat idx);
            bidx = index (slots m ! unat idx)
        in if bidx = UINT32_MAX then Some (Inr NULL, Suc n)
           else case key_matches mem m k h bhash bidx of
             Inl e \<Rightarrow> Some (Inl e, Suc n)
           | Inr matched \<Rightarrow>
               if matched
               then Some (Inr (value_ref (items m ! unat (index (slots m ! unat idx)))), Suc n)
               else
                 (let idx' = of_nat (unat (idx + 1) mod slot_count m) in
                  if idx' \<noteq> start then trashmap_get_loop mem m k h start idx' (Suc n)
                  else Some (Inr NULL, Suc n)))"

declare trashmap_get_loop.simps [code]

definition trashmap_get_probes ::
  "memory \<Rightarrow> trashmap_t \<Rightarrow> cptr \<Rightarrow> ((fault + cptr) \<times> nat) option" where
  "trashmap_get_probes mem m k =
     (if slot_count m = 0 then Some (Inl Div_By_Zero, 0)
      else let h = trashmap_hash (mem k);
               start = of_nat (unat h mod slot_count m)
           in trashmap_get_loop mem m k h start start 0)"

definition trashmap_get :: "memory \<Rightarrow> trashmap_t \<Rightarrow> cptr \<Rightarrow> (fault + cptr) option" where
  "trashmap_get mem m k = map_option fst (trashmap_get_probes mem m k)"

partial_function (option) trashmap_has_loop ::
  "memory \<Rightarrow> trashmap_t \<Rightarrow> cptr \<Rightarrow> 32 word \<Rightarrow> 32 word \<Rightarrow> 32 word \<Rightarrow> nat \<Rightarrow>
   ((fault + bool) \<times> nat) option" where
  "trashmap_has_loop mem m k h start idx n =
     (if length (slots m) \<le> unat idx then Some (Inl Out_Of_Bounds, Suc n)
      else
        let bhash = hash (slots m ! unat idx);
            bidx = index (slots m ! unat idx)
        in if bidx = UINT32_MAX then Some (Inr False, Suc n)
           else case key_matches mem m k h bhash bidx of
             Inl e \<Rightarrow> Some (Inl e, Suc n)
           | Inr matched \<Rightarrow>
               if matched then Some (Inr True, Suc n)
               else
                 (let idx' = of_nat (unat (idx + 1) mod slot_count m) in
                  if idx' \<noteq> start then trashmap_has_loop mem m k h start idx' (Suc n)
                  else Some (Inr False, Suc n)))"

declare trashmap_has_loop.simps [code]

definition trashmap_has_probes ::
  "memory \<Rightarrow> trashmap_t \<Rightarrow> cptr \<Rightarrow> ((fault + bool) \<times> nat) option" where
  "trashmap_has_probes mem m k =
     (if slot_count m = 0 then Some (Inl Div_By_Zero, 0)
      else let h = trashmap_hash (mem k);
               start = of_nat (unat h mod slot_count m)
           in trashmap_has_loop mem m k h start start 0)"

definition trashmap_has :: "memory \<Rightarrow> trashmap_t \<Rightarrow> cptr \<Rightarrow> (fault + bool) option" where
  "trashmap_has mem m k = map_option fst (trashmap_has_probes mem m k)"

text \<open>The capacity loop of \<^verbatim>\<open>trashmap_reserve\<close>: doubling wraps at \<open>2 ^ 64\<close>.\<close>

partial_function (option) reserve_capacity_loop :: "nat \<Rightarrow> nat \<Rightarrow> nat option" where
  "reserve_capacity_loop need cap =
     (if need > cap then reserve_capacity_loop need (cap * 2 mod 2 ^ 64) else Some cap)"

declare reserve_capacity_loop.simps [code]

text \<open>The first half of \<^verbatim>\<open>trashmap_reserve\<close>: the item arena.\<close>

definition reserve_items ::
  "allocator \<Rightarrow> trashmap_t \<Rightarrow> nat \<Rightarrow> (fault + trashmap_t) option" where
  "reserve_items alloc m extra =
     (if (count m + extra) mod 2 ^ 64 > capacity m
      then case reserve_capacity_loop ((count m + extra) mod 2 ^ 64)
                  (if capacity m = 0 then 16 else capacity m) of
             None \<Rightarrow> None
           | Some cap \<Rightarrow>
               (case realloc_items alloc (items m) (cap * 16 mod 2 ^ 64) of
                  None \<Rightarrow> Some (Inl Out_Of_Memory)
                | Some its \<Rightarrow> Some (Inr (m\<lparr>capacity := cap, items := its\<rparr>)))
      else Some (Inr m))"

text \<open>
  The inner do-while loop of the rehash: the slot \<open>s\<close> goes to the first empty slot of
  the new array from \<open>new_idx\<close> on; when the loop wraps, the slot is not copied.
\<close>

partial_function (option) rehash_probe ::
  "trashmap_slot_t list \<Rightarrow> nat \<Rightarrow> trashmap_slot_t \<Rightarrow> 32 word \<Rightarrow> 32 word \<Rightarrow>
   (fault + trashmap_slot_t list) option" where
  "rehash_probe new_slots new_slot_count s start new_idx =
     (if length new_slots \<le> unat new_idx then Some (Inl Out_Of_Bounds)
      else if index (new_slots ! unat new_idx) = UINT32_MAX
      then Some (Inr (new_slots[unat new_idx := s]))
      else let new_idx' = of_nat (unat (new_idx + 1) mod new_slot_count) in
           if new_idx' \<noteq> start
           then rehash_probe new_slots new_slot_count s start new_idx'
           else Some (Inr new_slots))"

declare rehash_probe.simps [code]

text \<open>The for loop of the rehash, over the old slots from \<open>map_idx\<close> on.\<close>

function rehash_loop ::
  "trashmap_t \<Rightarrow> nat \<Rightarrow> trashmap_slot_t list \<Rightarrow> nat \<Rightarrow>
   (fault + trashmap_slot_t list) option" where
  "rehash_loop m new_slot_count new_slots map_idx =
     (if map_idx < slot_count m
      then (if length (slots m) \<le> map_idx then Some (Inl Out_Of_Bounds)
            else if index (slots m ! map_idx) = UINT32_MAX
            then rehash_loop m new_slot_count new_slots (map_idx + 1)
            else if new_slot_count = 0 then Some (Inl Div_By_Zero)
            else let start = of_nat (unat (hash (slots m ! map_idx)) mod new_slot_count)
                 in case rehash_probe new_slots new_slot_count (slots m ! map_idx)
                           start start of
                      None \<Rightarrow> None
                    | Some (Inl e) \<Rightarrow> Some (Inl e)
                    | Some (Inr new_slots') \<Rightarrow>
                        rehash_loop m new_slot_count new_slots' (map_idx + 1))
      else Some (Inr new_slots))"
  by pat_completeness auto
termination
  by (relation "measure (\<lambda>(m, new_slot_count, new_slots, map_idx). slot_count m - map_idx)")
    auto

declare rehash_loop.simps [simp del]

text \<open>The second half of \<^verbatim>\<open>trashmap_reserve\<close>: the slot table.\<close>

definition reserve_slots ::
  "allocator \<Rightarrow> trashmap_t \<Rightarrow> nat \<Rightarrow> (fault + trashmap_t) option" where
  "reserve_slots alloc m extra =
     (if (count m + extra) mod 2 ^ 64 > (slot_count m * 3 mod 2 ^ 64) div 4
      then let new_slot_count = slot_count m * 2 mod 2 ^ 64;
               len = new_slot_count * 8 mod 2 ^ 64
           in case memset_alloc (alloc_slots alloc len) 0xFF len of
                Inl e \<Rightarrow> Some (Inl e)
              | Inr None \<Rightarrow> Some (Inl Out_Of_Memory)
              | Inr (Some new_slots) \<Rightarrow>
                  (case rehash_loop m new_slot_count new_slots 0 of
                     None \<Rightarrow> None
                   | Some (Inl e) \<Rightarrow> Some (Inl e)
                   | Some (Inr new_slots') \<Rightarrow>
                       Some (Inr (m\<lparr>slots := new_slots', slot_count := new_slot_count\<rparr>)))
      else Some (Inr m))"

definition trashmap_reserve ::
  "allocator \<Rightarrow> trashmap_t \<Rightarrow> nat \<Rightarrow> (fault + trashmap_t) option" where
  "trashmap_reserve alloc m extra =
     (case reserve_items alloc m extra of
        None \<Rightarrow> None
      | Some (Inl e) \<Rightarrow> Some (Inl e)
      | Some (Inr m') \<Rightarrow> reserve_slots alloc m' extra)"

partial_function (option) trashmap_set_loop ::
  "memory \<Rightarrow> trashmap_t \<Rightarrow> cptr \<Rightarrow> cptr \<Rightarrow> 32 word \<Rightarrow> 32 word \<Rightarrow> 32 word \<Rightarrow>
   (fault + trashmap_t) option" where
  "trashmap_set_loop mem m k v h start idx =
     (if length (slots m) \<le> unat idx then Some (Inl Out_Of_Bounds)
      else
        let item_idx = index (slots m ! unat idx);
            item_hash = hash (slots m ! unat idx)
        in if item_idx = UINT32_MAX
           then (if length (items m) \<le> count m then Some (Inl Out_Of_Bounds)
                 else Some (Inr (m
                   \<lparr>items := (items m)[count m := \<lparr>key = k, value_ref = v\<rparr>],
                    slots := (slots m)[unat idx := \<lparr>hash = h, index = of_nat (count m)\<rparr>],
                    count := (count m + 1) mod 2 ^ 64\<rparr>)))
           else case key_matches mem m k h item_hash item_idx of
             Inl e \<Rightarrow> Some (Inl e)
           | Inr matched \<Rightarrow>
               if matched
               then Some (Inr (m\<lparr>items := (items m)
                 [unat item_idx := (items m ! unat item_idx)\<lparr>value_ref := v\<rparr>]\<rparr>))
               else
                 (let idx' = of_nat (unat (idx + 1) mod slot_count m) in
                  if idx' \<noteq> start then trashmap_set_loop mem m k v h start idx'
                  else Some (Inl Assert_Failed)))"

declare trashmap_set_loop.simps [code]

definition trashmap_set ::
  "allocator \<Rightarrow> memory \<Rightarrow> trashmap_t \<Rightarrow> cptr \<Rightarrow> cptr \<Rightarrow> (fault + trashmap_t) option"
  where
  "trashmap_set alloc mem m k v =
     (case trashmap_reserve alloc m 1 of
        None \<Rightarrow> None
      | Some (Inl e) \<Rightarrow> Some (Inl e)
      | Some (Inr m') \<Rightarrow>
          if slot_count m' = 0 then Some (Inl Div_By_Zero)
          else let h = trashmap_hash (mem k);
                   start = of_nat (unat h mod slot_count m')
               in trashmap_set_loop mem m' k v h start start)"

section \<open>Auxiliary notions for the proofs\<close>

text \<open>
  The allocator that serves every request, and the outcome of a call that stopped at an
  allocation that was not served.
\<close>

abbreviation served :: allocator where
  "served \<equiv> (\<lambda>len. True)"

definition allocation_failed :: "(fault + 'a) option \<Rightarrow> bool" where
  "allocation_failed r \<longleftrightarrow> r = Some (Inl Out_Of_Memory) \<or> r = Some (Inl Null_Dereference)"

definition ring :: "nat \<Rightarrow> nat" where
  "ring sc = min sc (2 ^ 32)"

definition home :: "nat \<Rightarrow> 32 word \<Rightarrow> nat" where
  "home sc h = unat h mod sc"

definition get_stop ::
  "memory \<Rightarrow> trashmap_t \<Rightarrow> cptr \<Rightarrow> 32 word \<Rightarrow> nat \<Rightarrow> (fault + cptr) option" where
  "get_stop mem m k h p =
     (if length (slots m) \<le> p then Some (Inl Out_Of_Bounds)
      else if index (slots m ! p) = UINT32_MAX then Some (Inr NULL)
      else case key_matches mem m k h (hash (slots m ! p)) (index (slots m ! p)) of
        Inl e \<Rightarrow> Some (Inl e)
      | Inr matched \<Rightarrow>
          if matched then Some (Inr (value_ref (items m ! unat (index (slots m ! p)))))
          else None)"

definition has_stop ::
  "memory \<Rightarrow> trashmap_t \<Rightarrow> cptr \<Rightarrow> 32 word \<Rightarrow> nat \<Rightarrow> (fault + bool) option" where
  "has_stop mem m k h p =
     (if length (slots m) \<le> p then Some (Inl Out_Of_Bounds)
      else if index (slots m ! p) = UINT32_MAX then Some (Inr False)
      else case key_matches mem m k h (hash (slots m ! p)) (index (slots m ! p)) of
        Inl e \<Rightarrow> Some (Inl e)
      | Inr matched \<Rightarrow> if matched then Some (Inr True) else None)"

definition set_stop ::
  "memory \<Rightarrow> trashmap_t \<Rightarrow> cptr \<Rightarrow> cptr \<Rightarrow> 32 word \<Rightarrow> nat \<Rightarrow>
   (fault + trashmap_t) option" where
  "set_stop mem m k v h p =
     (if length (slots m) \<le> p then Some (Inl Out_Of_Bounds)
      else if index (slots m ! p) = UINT32_MAX
      then (if length (items m) \<le> count m then Some (Inl Out_Of_Bounds)
            else Some (Inr (m
              \<lparr>items := (items m)[count m := \<lparr>key = k, value_ref = v\<rparr>],
               slots := (slots m)[p := \<lparr>hash = h, index = of_nat (count m)\<rparr>],
               count := (count m + 1) mod 2 ^ 64\<rparr>)))
      else case key_matches mem m k h (hash (slots m ! p)) (index (slots m ! p)) of
        Inl e \<Rightarrow> Some (Inl e)
      | Inr matched \<Rightarrow>
          if matched
          then Some (Inr (m\<lparr>items := (items m)
            [unat (index (slots m ! p)) :=
               (items m ! unat (index (slots m ! p)))\<lparr>value_ref := v\<rparr>]\<rparr>))
          else None)"

definition rehash_stop ::
  "trashmap_slot_t list \<Rightarrow> trashmap_slot_t \<Rightarrow> nat \<Rightarrow> (fault + trashmap_slot_t list) option"
  where
  "rehash_stop new_slots s p =
     (if length new_slots \<le> p then Some (Inl Out_Of_Bounds)
      else if index (new_slots ! p) = UINT32_MAX then Some (Inr (new_slots[p := s]))
      else None)"

text \<open>The slots that hold an entry, in array order.\<close>

definition live_slots :: "trashmap_slot_t list \<Rightarrow> trashmap_slot_t list" where
  "live_slots sl = filter (\<lambda>s. index s \<noteq> UINT32_MAX) sl"

text \<open>The live part of the item arena: the entries, in insertion order.\<close>

definition entries :: "trashmap_t \<Rightarrow> trashmap_item_t list" where
  "entries m = take (count m) (items m)"

text \<open>The slot that refers to the entry \<open>j\<close> of the arena.\<close>

definition item_slot :: "memory \<Rightarrow> trashmap_item_t list \<Rightarrow> nat \<Rightarrow> trashmap_slot_t" where
  "item_slot mem es j = \<lparr>hash = trashmap_hash (mem (key (es ! j))), index = of_nat j\<rparr>"

text \<open>The key \<open>k\<close> and the key of the entry \<open>it\<close> are the same C string.\<close>

definition same_key :: "memory \<Rightarrow> cptr \<Rightarrow> trashmap_item_t \<Rightarrow> bool" where
  "same_key mem k it \<longleftrightarrow> cstr (mem (key it)) = cstr (mem k)"

text \<open>
  No gap in a probe chain: from the home slot of its hash up to an occupied slot, every
  slot is occupied; occupied slots lie in the part of the array the 32-bit probe
  position can reach.
\<close>

definition chain_ok :: "nat \<Rightarrow> trashmap_slot_t list \<Rightarrow> bool" where
  "chain_ok sc sl \<longleftrightarrow>
     (\<forall>p<length sl. index (sl ! p) \<noteq> UINT32_MAX \<longrightarrow>
        p < ring sc \<and>
        (\<forall>i<(p + ring sc - home sc (hash (sl ! p))) mod ring sc.
           index (sl ! ((home sc (hash (sl ! p)) + i) mod ring sc)) \<noteq> UINT32_MAX))"

text \<open>
  The invariant of a table: the sizes fit, the occupied slots are exactly one slot per
  entry, with the hash of the entry's key, probe chains have no gap, and no two entries
  have the same key.
\<close>

definition table_inv :: "memory \<Rightarrow> trashmap_t \<Rightarrow> bool" where
  "table_inv mem m \<longleftrightarrow>
     0 < slot_count m \<and> slot_count m < 2 ^ 61 \<and> length (slots m) = slot_count m \<and>
     length (items m) = capacity m \<and> capacity m < 2 ^ 60 \<and>
     count m \<le> capacity m \<and> count m \<le> slot_count m * 3 div 4 \<and> count m < 2 ^ 32 \<and>
     mset (live_slots (slots m)) = mset (map (item_slot mem (entries m)) [0..<count m]) \<and>
     chain_ok (slot_count m) (slots m) \<and>
     distinct (map (\<lambda>it. cstr (mem (key it))) (entries m))"

text \<open>What \<^verbatim>\<open>trashmap_set\<close> does to the entries: update in place, or append.\<close>

definition entries_set ::
  "memory \<Rightarrow> trashmap_item_t list \<Rightarrow> cptr \<Rightarrow> cptr \<Rightarrow> trashmap_item_t list" where
  "entries_set mem es k v =
     (if \<exists>it\<in>set es. same_key mem k it
      then map (\<lambda>it. if same_key mem k it then it\<lparr>value_ref := v\<rparr> else it) es
      else es @ [\<lparr>key = k, value_ref = v\<rparr>])"

text \<open>What \<^verbatim>\<open>trashmap_get\<close> and \<^verbatim>\<open>trashmap_has\<close> answer on the entries.\<close>

definition entries_get :: "memory \<Rightarrow> trashmap_item_t list \<Rightarrow> cptr \<Rightarrow> cptr" where
  "entries_get mem es k =
     (case find (same_key mem k) es of None \<Rightarrow> NULL | Some it \<Rightarrow> value_ref it)"

definition entries_has :: "memory \<Rightarrow> trashmap_item_t list \<Rightarrow> cptr \<Rightarrow> bool" where
  "entries_has mem es k \<longleftrightarrow> (\<exists>it\<in>set es. same_key mem k it)"

text \<open>
  Sequences of calls of the public operations. A lookup leaves the table as it is; every
  call of the sequence has to return without a fault for the sequence to go on.
\<close>

datatype operation =
  Op_set cptr cptr | Op_reserve nat | Op_clear | Op_get cptr | Op_has cptr

fun apply_operation ::
  "allocator \<Rightarrow> memory \<Rightarrow> trashmap_t \<Rightarrow> operation \<Rightarrow> (fault + trashmap_t) option" where
  "apply_operation alloc mem m (Op_set k v) = trashmap_set alloc mem m k v"
| "apply_operation alloc mem m (Op_reserve extra) = trashmap_reserve alloc m extra"
| "apply_operation alloc mem m Op_clear = Some (trashmap_clear m)"
| "apply_operation alloc mem m (Op_get k) =
     (case trashmap_get mem m k of
        None \<Rightarrow> None | Some (Inl e) \<Rightarrow> Some (Inl e) | Some (Inr v) \<Rightarrow> Some (Inr m))"
| "apply_operation alloc mem m (Op_has k) =
     (case trashmap_has mem m k of
        None \<Rightarrow> None | Some (Inl e) \<Rightarrow> Some (Inl e) | Some (Inr b) \<Rightarrow> Some (Inr m))"

fun run_operations ::
  "allocator \<Rightarrow> memory \<Rightarrow> trashmap_t \<Rightarrow> operation list \<Rightarrow> (fault + trashmap_t) option"
  where
  "run_operations alloc mem m [] = Some (Inr m)"
| "run_operations alloc mem m (x # xs) =
     (case apply_operation alloc mem m x of
        None \<Rightarrow> None
      | Some (Inl e) \<Rightarrow> Some (Inl e)
      | Some (Inr m') \<Rightarrow> run_operations alloc mem m' xs)"

text \<open>The same on a fresh table: \<^verbatim>\<open>trashmap_init\<close>, then the calls.\<close>

definition init_and_run ::
  "allocator \<Rightarrow> memory \<Rightarrow> nat \<Rightarrow> operation list \<Rightarrow> (fault + trashmap_t) option" where
  "init_and_run alloc mem cnt xs =
     (case trashmap_init alloc cnt of
        Inl e \<Rightarrow> Some (Inl e)
      | Inr m \<Rightarrow> run_operations alloc mem m xs)"

text \<open>What a sequence of calls does to the entries.\<close>

fun entries_apply ::
  "memory \<Rightarrow> trashmap_item_t list \<Rightarrow> operation \<Rightarrow> trashmap_item_t list" where
  "entries_apply mem es (Op_set k v) = entries_set mem es k v"
| "entries_apply mem es Op_clear = []"
| "entries_apply mem es (Op_reserve extra) = es"
| "entries_apply mem es (Op_get k) = es"
| "entries_apply mem es (Op_has k) = es"

definition entries_run ::
  "memory \<Rightarrow> trashmap_item_t list \<Rightarrow> operation list \<Rightarrow> trashmap_item_t list" where
  "entries_run mem es xs = foldl (entries_apply mem) es xs"

text \<open>
  The tables a sequence of calls goes through: the table each call is made on, in
  order, and the table the last call returns; the list ends where a call does not
  return.
\<close>

fun run_states ::
  "allocator \<Rightarrow> memory \<Rightarrow> trashmap_t \<Rightarrow> operation list \<Rightarrow> trashmap_t list" where
  "run_states alloc mem m [] = [m]"
| "run_states alloc mem m (x # xs) =
     m # (case apply_operation alloc mem m x of
            Some (Inr m') \<Rightarrow> run_states alloc mem m' xs
          | _ \<Rightarrow> [])"

definition init_states ::
  "allocator \<Rightarrow> memory \<Rightarrow> nat \<Rightarrow> operation list \<Rightarrow> trashmap_t list" where
  "init_states alloc mem cnt xs =
     (case trashmap_init alloc cnt of Inl e \<Rightarrow> [] | Inr m \<Rightarrow> run_states alloc mem m xs)"

text \<open>
  The size a call of \<^verbatim>\<open>trashmap_reserve\<close> stays within: the number of items it
  reserves for, \<^verbatim>\<open>map->count + extra\<close> as the source computes it, is at most
  \<open>2 ^ 59\<close>, the largest number for which the capacity the doubling loop reaches
  has a byte length below \<open>2 ^ 64\<close>.
\<close>

fun reserve_sized :: "trashmap_t \<Rightarrow> operation \<Rightarrow> bool" where
  "reserve_sized m (Op_reserve extra) = ((count m + extra) mod 2 ^ 64 \<le> 2 ^ 59)"
| "reserve_sized m x = True"

text \<open>
  What holds of every table that a sequence of calls returns, for every slot count, also
  one whose byte length does not fit \<^verbatim>\<open>size_t\<close>: the slot array has the length
  the allocation gave it, the item arena has fewer than \<open>2 ^ 60\<close> cells, \<open>count\<close> is
  within the load factor where the slot count is the length of the array, and as long
  as \<open>count\<close> is at most \<open>2 ^ 32\<close>, at most \<open>count\<close> and fewer than \<open>2 ^ 32\<close>
  slots are occupied.
\<close>

definition load_inv :: "trashmap_t \<Rightarrow> bool" where
  "load_inv m \<longleftrightarrow>
     0 < slot_count m \<and> slot_count m < 2 ^ 64 \<and>
     length (slots m) = slot_count m mod 2 ^ 61 \<and>
     length (items m) < 2 ^ 60 \<and> count m \<le> 2 ^ 60 \<and>
     (slot_count m < 2 ^ 61 \<longrightarrow> count m \<le> slot_count m * 3 div 4) \<and>
     (count m \<le> 2 ^ 32 \<longrightarrow> length (live_slots (slots m)) \<le> min (count m) (2 ^ 32 - 1))"

text \<open>
  The representation invariant as the specification states it: the arrays have the sizes
  the table records, \<open>count\<close> is within the capacity and the load factor, every
  occupied slot holds an index below \<open>count\<close>, and every index below \<open>count\<close> is held
  by an occupied slot.
\<close>

definition rep_invariant :: "trashmap_t \<Rightarrow> bool" where
  "rep_invariant m \<longleftrightarrow>
     length (slots m) = slot_count m \<and> length (items m) = capacity m \<and>
     count m \<le> capacity m \<and> count m \<le> slot_count m * 3 div 4 \<and>
     (\<forall>s\<in>set (slots m). index s \<noteq> UINT32_MAX \<longrightarrow> unat (index s) < count m) \<and>
     (\<forall>j<count m. \<exists>s\<in>set (slots m). index s \<noteq> UINT32_MAX \<and> unat (index s) = j)"

text \<open>
  An allocator, a memory and tables for concrete instances: the allocator serves the
  requests of at most 64 KiB, and the address \<open>p\<close> holds the string of \<open>p\<close> letters
  \<^verbatim>\<open>a\<close>, so distinct addresses hold distinct strings.
\<close>

definition example_alloc :: allocator where
  "example_alloc len \<longleftrightarrow> len \<le> 65536"

definition example_mem :: memory where
  "example_mem p = replicate p 0x61"

definition fresh_table :: "nat \<Rightarrow> trashmap_t" where
  "fresh_table n =
     \<lparr>slots = replicate n \<lparr>hash = UINT32_MAX, index = UINT32_MAX\<rparr>, items = [],
      slot_count = n, count = 0, capacity = 0\<rparr>"

text \<open>
  The tables of a run on one slot: after \<^verbatim>\<open>trashmap_set\<close> of the key at address 2,
  after a \<^verbatim>\<open>trashmap_reserve\<close> for one more item, and after \<^verbatim>\<open>trashmap_set\<close> of
  the key at address 3.
\<close>

definition example_table_1 :: trashmap_t where
  "example_table_1 =
     \<lparr>slots = [\<lparr>hash = UINT32_MAX, index = UINT32_MAX\<rparr>, \<lparr>hash = 0x4C250437, index = 0\<rparr>],
      items = \<lparr>key = 2, value_ref = 5\<rparr> # replicate 15 \<lparr>key = NULL, value_ref = NULL\<rparr>,
      slot_count = 2, count = 1, capacity = 16\<rparr>"

definition example_table_1r :: trashmap_t where
  "example_table_1r =
     \<lparr>slots = [\<lparr>hash = UINT32_MAX, index = UINT32_MAX\<rparr>,
               \<lparr>hash = UINT32_MAX, index = UINT32_MAX\<rparr>,
               \<lparr>hash = UINT32_MAX, index = UINT32_MAX\<rparr>, \<lparr>hash = 0x4C250437, index = 0\<rparr>],
      items = \<lparr>key = 2, value_ref = 5\<rparr> # replicate 15 \<lparr>key = NULL, value_ref = NULL\<rparr>,
      slot_count = 4, count = 1, capacity = 16\<rparr>"

definition example_table_2 :: trashmap_t where
  "example_table_2 =
     \<lparr>slots = [\<lparr>hash = UINT32_MAX, index = UINT32_MAX\<rparr>,
               \<lparr>hash = UINT32_MAX, index = UINT32_MAX\<rparr>,
               \<lparr>hash = 0x3445D362, index = 1\<rparr>, \<lparr>hash = 0x4C250437, index = 0\<rparr>],
      items = \<lparr>key = 2, value_ref = 5\<rparr> # \<lparr>key = 3, value_ref = 6\<rparr> #
              replicate 14 \<lparr>key = NULL, value_ref = NULL\<rparr>,
      slot_count = 4, count = 2, capacity = 16\<rparr>"

text \<open>An allocator that serves the requests of at most \<open>2 ^ 40\<close> bytes.\<close>

definition large_alloc :: allocator where
  "large_alloc len \<longleftrightarrow> len \<le> 2 ^ 40"

text \<open>\<^verbatim>\<open>trashmap_set\<close> of the keys at the addresses 1 to \<open>n\<close>, in this order.\<close>

definition many_sets :: "nat \<Rightarrow> operation list" where
  "many_sets n = map (\<lambda>i. Op_set i 5) [1..<n + 1]"

definition full_table :: trashmap_t where
  "full_table =
     \<lparr>slots = [\<lparr>hash = 0, index = 0\<rparr>, \<lparr>hash = 0, index = 0\<rparr>],
      items = [\<lparr>key = 3, value_ref = 5\<rparr>],
      slot_count = 2, count = 1, capacity = 1\<rparr>"

text \<open>
  Where a probe for the key \<open>k\<close> stops: at an empty slot, or at a slot whose entry has
  the key \<open>k\<close>.
\<close>

definition probe_stops :: "memory \<Rightarrow> trashmap_t \<Rightarrow> cptr \<Rightarrow> nat \<Rightarrow> bool" where
  "probe_stops mem m k p \<longleftrightarrow>
     index (slots m ! p) = UINT32_MAX \<or>
     same_key mem k (entries m ! unat (index (slots m ! p)))"

section \<open>The hash function is FNV-1a\<close>

lemma shift_add_eq_mult: "shift_add h = h * 16777619"
  by (simp add: shift_add_def push_bit_eq_mult algebra_simps)

lemma trashmap_hash_loop_fold:
  "trashmap_hash_loop h k = fold (\<lambda>b h. (h XOR ucast b) * 16777619) (cstr k) h"
  by (induction k arbitrary: h) (simp_all add: cstr_def shift_add_eq_mult)

text \<open>
  C6. \<^verbatim>\<open>trashmap_hash\<close> is a function of the key's bytes and equals the FNV-1a
  reference on every key; the shift-add chain of the implementation is the
  multiplication by 16777619 modulo \<open>2 ^ 32\<close>.
\<close>

theorem trashmap_hash_is_fnv1a:
  "trashmap_hash k = fnv1a_reference k \<and>
   h + push_bit 1 h + push_bit 4 h + push_bit 7 h + push_bit 8 h + push_bit 24 h
     = h * (16777619 :: 32 word)"
proof
  show "trashmap_hash k = fnv1a_reference k"
    by (simp add: trashmap_hash_def fnv1a_reference_def FNV_1A_OFFSET_BASIS_def
        trashmap_hash_loop_fold)
  show "h + push_bit 1 h + push_bit 4 h + push_bit 7 h + push_bit 8 h + push_bit 24 h
     = h * (16777619 :: 32 word)"
    using shift_add_eq_mult [of h] by (simp only: shift_add_def)
qed

section \<open>String comparison\<close>

lemma trashmap_strcmp_refl: "trashmap_strcmp a a = 0"
  by (induction a) simp_all

text \<open>
  C4. \<^verbatim>\<open>trashmap_strcmp(a, a)\<close> is 0 for every string, but the difference is
  taken as \<^verbatim>\<open>*rhs - *lhs\<close>: on \<^verbatim>\<open>"abc"\<close> and \<^verbatim>\<open>"abd"\<close> the result is
  \<open>1\<close>, positive, where libc's \<^verbatim>\<open>strcmp\<close> is negative.
\<close>

theorem trashmap_strcmp_abc_abd:
  "trashmap_strcmp a a = 0 \<and>
   trashmap_strcmp [0x61, 0x62, 0x63] [0x61, 0x62, 0x64] = 1 \<and>
   \<not> trashmap_strcmp [0x61, 0x62, 0x63] [0x61, 0x62, 0x64] < 0"
  by (simp add: trashmap_strcmp_refl)

section \<open>Arithmetic of the probe ring\<close>

lemma ring_pos: "0 < sc \<Longrightarrow> 0 < ring sc"
  by (simp add: ring_def)

lemma ring_le: "ring sc \<le> sc"
  by (simp add: ring_def)

lemma home_less_ring: "0 < sc \<Longrightarrow> home sc h < ring sc"
proof -
  assume sc: "0 < sc"
  have "unat h < 2 ^ 32" using unsigned_less [of h] by simp
  then have "unat h mod sc < 2 ^ 32"
    by (rule le_less_trans [OF mod_less_eq_dividend])
  moreover have "unat h mod sc < sc" using sc by simp
  ultimately show ?thesis by (simp add: home_def ring_def)
qed

lemma unat_start: "0 < sc \<Longrightarrow> unat (of_nat (unat h mod sc) :: 32 word) = home sc h"
proof -
  assume sc: "0 < sc"
  have "unat h < 2 ^ 32" using unsigned_less [of h] by simp
  then have "unat h mod sc < 2 ^ 32"
    by (rule le_less_trans [OF mod_less_eq_dividend])
  then show ?thesis by (simp add: home_def unat_of_nat)
qed

lemma unat_next:
  assumes sc: "0 < sc" and a: "unat (idx :: 32 word) < ring sc"
  shows "unat (of_nat (unat (idx + 1) mod sc) :: 32 word) = (unat idx + 1) mod ring sc"
proof -
  have u: "unat (idx + 1) = (unat idx + 1) mod 2 ^ 32"
    by (simp add: unat_word_ariths)
  have b: "unat idx < 2 ^ 32" using unsigned_less [of idx] by simp
  show ?thesis
  proof (cases "sc \<le> 2 ^ 32")
    case True
    then have r: "ring sc = sc" by (simp add: ring_def)
    show ?thesis
    proof (cases "unat idx + 1 < 2 ^ 32")
      case True
      have "(unat idx + 1) mod sc < 2 ^ 32"
        using \<open>sc \<le> 2 ^ 32\<close> sc mod_less_divisor [of sc "unat idx + 1"] by linarith
      then show ?thesis using True by (simp add: u r unat_of_nat)
    next
      case False
      then have e: "unat idx + 1 = 2 ^ 32" using b by linarith
      then have "sc = 2 ^ 32" using a r True by linarith
      then show ?thesis using e by (simp add: u ring_def)
    qed
  next
    case False
    then have r: "ring sc = 2 ^ 32" by (simp add: ring_def)
    have "(unat idx + 1) mod 2 ^ 32 < (2 :: nat) ^ 32" by simp
    then have "(unat idx + 1) mod 2 ^ 32 < sc"
      using False by linarith
    then show ?thesis by (simp add: u r unat_of_nat)
  qed
qed

lemma ring_step_neq:
  assumes "s < M" "0 < d" "d < M"
  shows "(s + d) mod M \<noteq> (s :: nat)"
proof (cases "s + d < M")
  case True
  then show ?thesis using assms by simp
next
  case False
  then have "(s + d) mod M = s + d - M"
    using assms by (simp add: mod_if)
  then show ?thesis using assms False by linarith
qed

lemma ring_step_full: "s < M \<Longrightarrow> (s + M) mod M = (s :: nat)"
  by simp

lemma ring_steps_inj_aux:
  assumes "i < j" "j < M" "(s + i) mod M = (s + j) mod (M :: nat)"
  shows False
proof -
  have M: "0 < M" using assms by simp
  let ?s = "(s + i) mod M"
  have "(?s + (j - i)) mod M = (s + i + (j - i)) mod M"
    by (simp add: mod_add_left_eq)
  also have "\<dots> = ?s" using assms by simp
  finally have "(?s + (j - i)) mod M = ?s" .
  moreover have "(?s + (j - i)) mod M \<noteq> ?s"
    by (rule ring_step_neq) (use assms M in simp_all)
  ultimately show False by simp
qed

lemma ring_steps_inj:
  assumes "i < M" "j < M" "(s + i) mod M = (s + j) mod (M :: nat)"
  shows "i = j"
proof (rule ccontr)
  assume "i \<noteq> j"
  then consider "i < j" | "j < i" by linarith
  then show False
  proof cases
    case 1
    then show False using ring_steps_inj_aux [of i j M s] assms by simp
  next
    case 2
    then show False using ring_steps_inj_aux [of j i M s] assms by simp
  qed
qed

lemma ring_dist:
  assumes "s < M" "p < M"
  shows "(p + M - s) mod M < M" and "(s + (p + M - s) mod M) mod M = (p :: nat)"
proof -
  show "(p + M - s) mod M < M" using assms by simp
  have "(s + (p + M - s) mod M) mod M = (s + (p + M - s)) mod M"
    by (simp add: mod_add_right_eq)
  also have "s + (p + M - s) = p + M" using assms by simp
  finally show "(s + (p + M - s) mod M) mod M = p" using assms by simp
qed

text \<open>
  Every probe loop of the source has one shape: at the slot \<open>idx\<close> the body either
  returns (\<open>St\<close> gives the result) or moves to the next slot, and the loop ends when
  the next slot is the start. \<open>F\<close> and \<open>W\<close> add the number of visited slots.
\<close>

lemma probe_loop_stop:
  fixes L :: "32 word \<Rightarrow> nat \<Rightarrow> 'a option" and St :: "nat \<Rightarrow> 'b option"
  assumes unfold: "\<And>idx n. L idx n =
      (case St (unat idx) of
         Some r \<Rightarrow> F r n
       | None \<Rightarrow> if (of_nat (unat (idx + 1) mod sc) :: 32 word) \<noteq> start
                 then L (of_nat (unat (idx + 1) mod sc)) (Suc n) else W n)"
    and sc: "0 < sc" and s: "unat start < ring sc"
    and j: "j < ring sc"
    and stop: "St ((unat start + j) mod ring sc) = Some r"
    and before: "\<forall>i<j. St ((unat start + i) mod ring sc) = None"
  shows "i \<le> j \<Longrightarrow> unat idx = (unat start + i) mod ring sc \<Longrightarrow>
         L idx n = F r (n + (j - i))"
proof (induction "j - i" arbitrary: i idx n)
  case 0
  then have "i = j" by simp
  then show ?case using stop 0 by (subst unfold) simp
next
  case (Suc d)
  let ?M = "ring sc"
  let ?idx' = "of_nat (unat (idx + 1) mod sc) :: 32 word"
  from Suc have ij: "i < j" by simp
  then have none: "St (unat idx) = None" using before Suc by simp
  have iM: "i < ?M" using ij j by simp
  have "unat idx < ?M" using Suc(4) iM by simp
  then have "unat ?idx' = (unat idx + 1) mod ?M" by (rule unat_next [OF sc])
  also have "\<dots> = (unat start + (i + 1)) mod ?M"
    by (simp add: Suc(4) mod_Suc_eq)
  finally have idx': "unat ?idx' = (unat start + (i + 1)) mod ?M" .
  have "(unat start + (i + 1)) mod ?M \<noteq> unat start"
    by (rule ring_step_neq) (use s ij j in simp_all)
  then have ne: "?idx' \<noteq> start" using idx' by auto
  have "L ?idx' (Suc n) = F r (Suc n + (j - (i + 1)))"
    by (rule Suc(1)) (use Suc ij idx' in simp_all)
  moreover have "Suc n + (j - (i + 1)) = n + (j - i)" using ij by simp
  ultimately have "L ?idx' (Suc n) = F r (n + (j - i))" by (simp only:)
  then show ?case using none ne
    by (subst unfold) (simp del: of_nat_add of_nat_Suc)
qed

lemma probe_loop_wrap:
  fixes L :: "32 word \<Rightarrow> nat \<Rightarrow> 'a option" and St :: "nat \<Rightarrow> 'b option"
  assumes unfold: "\<And>idx n. L idx n =
      (case St (unat idx) of
         Some r \<Rightarrow> F r n
       | None \<Rightarrow> if (of_nat (unat (idx + 1) mod sc) :: 32 word) \<noteq> start
                 then L (of_nat (unat (idx + 1) mod sc)) (Suc n) else W n)"
    and sc: "0 < sc" and s: "unat start < ring sc"
    and none: "\<forall>i<ring sc. St ((unat start + i) mod ring sc) = None"
  shows "i < ring sc \<Longrightarrow> unat idx = (unat start + i) mod ring sc \<Longrightarrow>
         L idx n = W (n + (ring sc - 1 - i))"
proof (induction "ring sc - i" arbitrary: i idx n)
  case 0
  then show ?case by simp
next
  case (Suc d)
  let ?M = "ring sc"
  let ?idx' = "of_nat (unat (idx + 1) mod sc) :: 32 word"
  have no: "St (unat idx) = None" using none Suc by simp
  have "unat idx < ?M" using Suc by simp
  then have "unat ?idx' = (unat idx + 1) mod ?M" by (rule unat_next [OF sc])
  also have "\<dots> = (unat start + (i + 1)) mod ?M"
    by (simp add: Suc(4) mod_Suc_eq)
  finally have idx': "unat ?idx' = (unat start + (i + 1)) mod ?M" .
  show ?case
  proof (cases "i + 1 < ?M")
    case True
    have "(unat start + (i + 1)) mod ?M \<noteq> unat start"
      by (rule ring_step_neq) (use s True in simp_all)
    then have ne: "?idx' \<noteq> start" using idx' by auto
    have "L ?idx' (Suc n) = W (Suc n + (?M - 1 - (i + 1)))"
      by (rule Suc(1)) (use Suc True idx' in simp_all)
    moreover have "Suc n + (?M - 1 - (i + 1)) = n + (?M - 1 - i)" using True by simp
    ultimately have "L ?idx' (Suc n) = W (n + (?M - 1 - i))" by (simp only:)
    then show ?thesis using no ne
      by (subst unfold) (simp del: of_nat_add of_nat_Suc)
  next
    case False
    then have e: "i + 1 = ?M" using Suc by simp
    then have "unat ?idx' = unat start" using idx' s by simp
    then have "?idx' = start" by (simp add: word_unat_eq_iff)
    moreover have "?M - 1 - i = 0" using e by simp
    ultimately show ?thesis using no
      by (subst unfold) simp
  qed
qed

lemma probe_cases:
  fixes P :: "nat \<Rightarrow> bool"
  obtains (found) j where "j < M" "P j" "\<forall>i<j. \<not> P i" | (none) "\<forall>i<M. \<not> P i"
proof (cases "\<exists>j<M. P j")
  case True
  then obtain j where j: "j < M \<and> P j" by blast
  define l where "l = (LEAST j. j < M \<and> P j)"
  have "l < M \<and> P l" unfolding l_def using j by (rule LeastI)
  moreover have "\<forall>i<l. \<not> P i"
  proof (intro allI impI)
    fix i assume "i < l"
    then have "\<not> (i < M \<and> P i)" unfolding l_def by (rule not_less_Least)
    moreover have "i < M" using \<open>i < l\<close> \<open>l < M \<and> P l\<close> by simp
    ultimately show "\<not> P i" by simp
  qed
  ultimately show ?thesis using found by blast
next
  case False
  then show ?thesis using none by blast
qed

text \<open>The result of a probe loop started at the home slot of a hash.\<close>

lemma probe_loop_result:
  fixes L :: "32 word \<Rightarrow> nat \<Rightarrow> 'a option" and St :: "nat \<Rightarrow> 'b option"
  assumes unfold: "\<And>idx n. L idx n =
      (case St (unat idx) of
         Some r \<Rightarrow> F r n
       | None \<Rightarrow> if (of_nat (unat (idx + 1) mod sc) :: 32 word) \<noteq> start
                 then L (of_nat (unat (idx + 1) mod sc)) (Suc n) else W n)"
    and sc: "0 < sc" and start: "start = of_nat (unat h mod sc)"
  obtains (stop) j r where "j < ring sc" "St ((home sc h + j) mod ring sc) = Some r"
      "\<forall>i<j. St ((home sc h + i) mod ring sc) = None" "L start 0 = F r j"
  | (wrap) "\<forall>i<ring sc. St ((home sc h + i) mod ring sc) = None"
      "L start 0 = W (ring sc - 1)"
proof -
  let ?M = "ring sc"
  have st: "unat start = home sc h" unfolding start by (rule unat_start [OF sc])
  have s: "unat start < ?M" using home_less_ring [OF sc] st by simp
  show ?thesis
  proof (cases rule: probe_cases [of ?M "\<lambda>j. St ((home sc h + j) mod ?M) \<noteq> None"])
    case (found j)
    then obtain r where r: "St ((unat start + j) mod ?M) = Some r" using st by auto
    have "L start 0 = F r (0 + (j - 0))"
      by (rule probe_loop_stop [where L = L and St = St and F = F and W = W,
            OF unfold sc s found(1) r])
        (use found s st in simp_all)
    then show ?thesis using stop [of j r] found r st by simp
  next
    case none
    have "L start 0 = W (0 + (?M - 1 - 0))"
      by (rule probe_loop_wrap [where L = L and St = St and F = F and W = W,
            OF unfold sc s])
        (use none s st ring_pos [OF sc] in simp_all)
    then show ?thesis using wrap none by simp
  qed
qed

lemma trashmap_get_loop_unfold:
  "trashmap_get_loop mem m k h start idx n =
     (case get_stop mem m k h (unat idx) of
        Some r \<Rightarrow> Some (r, Suc n)
      | None \<Rightarrow>
          if (of_nat (unat (idx + 1) mod slot_count m) :: 32 word) \<noteq> start
          then trashmap_get_loop mem m k h start
                 (of_nat (unat (idx + 1) mod slot_count m)) (Suc n)
          else Some (Inr NULL, Suc n))"
  by (subst trashmap_get_loop.simps) (simp add: get_stop_def Let_def split: sum.splits)

lemma trashmap_has_loop_unfold:
  "trashmap_has_loop mem m k h start idx n =
     (case has_stop mem m k h (unat idx) of
        Some r \<Rightarrow> Some (r, Suc n)
      | None \<Rightarrow>
          if (of_nat (unat (idx + 1) mod slot_count m) :: 32 word) \<noteq> start
          then trashmap_has_loop mem m k h start
                 (of_nat (unat (idx + 1) mod slot_count m)) (Suc n)
          else Some (Inr False, Suc n))"
  by (subst trashmap_has_loop.simps) (simp add: has_stop_def Let_def split: sum.splits)

lemma get_probes_bounded:
  assumes "1 \<le> slot_count m"
  shows "\<exists>r n. trashmap_get_probes mem m k = Some (r, n) \<and> n \<le> slot_count m"
proof -
  let ?h = "trashmap_hash (mem k)"
  let ?start = "of_nat (unat ?h mod slot_count m) :: 32 word"
  have sc: "0 < slot_count m" using assms by simp
  have M: "0 < ring (slot_count m)" "ring (slot_count m) \<le> slot_count m"
    using ring_pos [OF sc] ring_le by simp_all
  note R = probe_loop_result [where L = "trashmap_get_loop mem m k ?h ?start"
        and St = "get_stop mem m k ?h" and F = "\<lambda>r n. Some (r, Suc n)"
        and sc = "slot_count m" and start = ?start
        and W = "\<lambda>n. Some (Inr NULL, Suc n)" and h = ?h,
        OF trashmap_get_loop_unfold sc refl]
  from R show ?thesis
  proof cases
    case (1 j r)
    then show ?thesis using sc M by (simp add: trashmap_get_probes_def Let_def)
  next
    case 2
    then show ?thesis using sc M by (simp add: trashmap_get_probes_def Let_def)
  qed
qed

lemma has_probes_bounded:
  assumes "1 \<le> slot_count m"
  shows "\<exists>r n. trashmap_has_probes mem m k = Some (r, n) \<and> n \<le> slot_count m"
proof -
  let ?h = "trashmap_hash (mem k)"
  let ?start = "of_nat (unat ?h mod slot_count m) :: 32 word"
  have sc: "0 < slot_count m" using assms by simp
  have M: "0 < ring (slot_count m)" "ring (slot_count m) \<le> slot_count m"
    using ring_pos [OF sc] ring_le by simp_all
  note R = probe_loop_result [where L = "trashmap_has_loop mem m k ?h ?start"
        and St = "has_stop mem m k ?h" and F = "\<lambda>r n. Some (r, Suc n)"
        and sc = "slot_count m" and start = ?start
        and W = "\<lambda>n. Some (Inr False, Suc n)" and h = ?h,
        OF trashmap_has_loop_unfold sc refl]
  from R show ?thesis
  proof cases
    case (1 j r)
    then show ?thesis using sc M by (simp add: trashmap_has_probes_def Let_def)
  next
    case 2
    then show ?thesis using sc M by (simp add: trashmap_has_probes_def Let_def)
  qed
qed

text \<open>
  C9. On every table with at least one slot, \<^verbatim>\<open>trashmap_get\<close> and
  \<^verbatim>\<open>trashmap_has\<close> return, and their probe loops visit at most \<open>slot_count\<close>
  slots, whatever the slots hold.
\<close>

theorem lookup_probes_bounded:
  "1 \<le> slot_count m \<Longrightarrow>
   (\<exists>r n. trashmap_get_probes mem m k = Some (r, n) \<and> n \<le> slot_count m \<and>
      trashmap_get mem m k = Some r) \<and>
   (\<exists>r n. trashmap_has_probes mem m k = Some (r, n) \<and> n \<le> slot_count m \<and>
      trashmap_has mem m k = Some r)"
  using get_probes_bounded [of m mem k] has_probes_bounded [of m mem k]
  by (auto simp: trashmap_get_def trashmap_has_def)

lemma example_mem_2: "example_mem 2 = [0x61, 0x61]"
  by (simp add: example_mem_def numeral_2_eq_2)

lemma example_hash_2: "trashmap_hash (example_mem 2) = 0x4C250437"
  by (simp add: example_mem_2 trashmap_hash_def FNV_1A_OFFSET_BASIS_def shift_add_def)

theorem lookup_probes_bounded_witness:
  "1 \<le> slot_count full_table \<and>
   (\<exists>r n. trashmap_get_probes example_mem full_table 2 = Some (r, n) \<and>
      n \<le> slot_count full_table) \<and>
   trashmap_get_probes example_mem full_table 2 = Some (Inr NULL, 2) \<and>
   trashmap_has_probes example_mem full_table 2 = Some (Inr False, 2)"
  using lookup_probes_bounded [of full_table example_mem 2]
  by (simp add: full_table_def trashmap_get_probes_def trashmap_has_probes_def
      example_hash_2 trashmap_get_loop.simps trashmap_has_loop.simps key_matches_def
      UINT32_MAX_def)

lemma sint_diff_eq_0_iff: "sint r - sint l = 0 \<longleftrightarrow> (l :: 8 word) = r"
proof
  assume "sint r - sint l = 0"
  then have "(signed l :: int) = signed r" by simp
  then show "l = r" by (rule signed_word_eqI)
qed simp

lemma sint_eq_0_iff: "sint (r :: 8 word) = 0 \<longleftrightarrow> r = 0"
  using sint_diff_eq_0_iff [of r 0] by auto

lemma trashmap_strcmp_eq_0_iff: "trashmap_strcmp a b = 0 \<longleftrightarrow> cstr a = cstr b"
proof (induction a b rule: trashmap_strcmp.induct)
  case (1 l lhs r rhs)
  show ?case
  proof (cases "l \<noteq> 0 \<and> r \<noteq> 0")
    case True
    then show ?thesis using 1 sint_diff_eq_0_iff [of r l]
      by (auto simp: cstr_def Let_def)
  next
    case False
    then show ?thesis using sint_diff_eq_0_iff [of r l]
      by (auto simp: cstr_def)
  qed
next
  case (2 r rhs)
  then show ?case by (auto simp: cstr_def sint_eq_0_iff)
next
  case (3 l lhs)
  then show ?case by (auto simp: cstr_def sint_eq_0_iff)
next
  case 4
  then show ?case by simp
qed

lemma trashmap_hash_loop_cstr: "trashmap_hash_loop h (cstr k) = trashmap_hash_loop h k"
  by (induction k arbitrary: h) (simp_all add: cstr_def)

lemma trashmap_hash_cstr: "cstr a = cstr b \<Longrightarrow> trashmap_hash a = trashmap_hash b"
  using trashmap_hash_loop_cstr [of FNV_1A_OFFSET_BASIS a]
    trashmap_hash_loop_cstr [of FNV_1A_OFFSET_BASIS b]
  by (simp add: trashmap_hash_def)

lemma fill_slot_FF: "fill_slot 0xFF = \<lparr>hash = UINT32_MAX, index = UINT32_MAX\<rparr>"
  by (simp add: fill_slot_def UINT32_MAX_def)

lemma unat_index_of_nat: "j < 2 ^ 32 \<Longrightarrow> unat (of_nat j :: 32 word) = j"
  by (simp add: unat_of_nat)

lemma of_nat_neq_UINT32_MAX: "j + 1 < 2 ^ 32 \<Longrightarrow> (of_nat j :: 32 word) \<noteq> UINT32_MAX"
proof
  assume j: "j + 1 < 2 ^ 32" and e: "(of_nat j :: 32 word) = UINT32_MAX"
  have "unat (of_nat j :: 32 word) = j" using j by (simp add: unat_of_nat)
  moreover have "unat UINT32_MAX = 4294967295" by (simp add: UINT32_MAX_def)
  ultimately show False using e j by simp
qed

section \<open>Occupied slots\<close>

lemma live_slots_update_empty:
  assumes "p < length sl" "index (sl ! p) = UINT32_MAX" "index s \<noteq> UINT32_MAX"
  shows "mset (live_slots (sl[p := s])) = mset (live_slots sl) + {#s#}"
proof -
  have sl: "sl = take p sl @ sl ! p # drop (Suc p) sl"
    using assms(1) by (rule id_take_nth_drop)
  have "sl[p := s] = take p sl @ s # drop (Suc p) sl"
    using assms(1) by (rule upd_conv_take_nth_drop)
  then have "live_slots (sl[p := s]) =
      live_slots (take p sl) @ s # live_slots (drop (Suc p) sl)"
    using assms(3) by (simp add: live_slots_def)
  moreover have "live_slots sl = live_slots (take p sl) @ live_slots (drop (Suc p) sl)"
    using assms(2) by (subst sl) (simp add: live_slots_def)
  ultimately show ?thesis by simp
qed

lemma live_slots_replicate_empty:
  "live_slots (replicate n \<lparr>hash = h, index = UINT32_MAX\<rparr>) = []"
  by (simp add: live_slots_def)

lemma live_slots_take_Suc:
  assumes "i < length sl"
  shows "live_slots (take (Suc i) sl) =
     (if index (sl ! i) = UINT32_MAX then live_slots (take i sl)
      else live_slots (take i sl) @ [sl ! i])"
  using assms by (simp add: take_Suc_conv_app_nth live_slots_def)

lemma live_slots_nth_mem:
  "p < length sl \<Longrightarrow> index (sl ! p) \<noteq> UINT32_MAX \<Longrightarrow> sl ! p \<in> set (live_slots sl)"
  by (simp add: live_slots_def)

lemma live_slots_memD:
  "s \<in> set (live_slots sl) \<Longrightarrow> \<exists>p<length sl. sl ! p = s \<and> index s \<noteq> UINT32_MAX"
  by (auto simp: live_slots_def in_set_conv_nth)

lemma distinct_filter_nth:
  "distinct (filter P xs) \<Longrightarrow> p < length xs \<Longrightarrow> q < length xs \<Longrightarrow> P (xs ! p) \<Longrightarrow>
   xs ! p = xs ! q \<Longrightarrow> p = q"
proof (induction xs arbitrary: p q)
  case Nil
  then show ?case by simp
next
  case (Cons x xs)
  show ?case
  proof (cases p)
    case 0
    show ?thesis
    proof (cases q)
      case (Suc q')
      have "x = xs ! q'" using Cons.prems 0 Suc by simp
      moreover have "P x" using Cons.prems 0 by simp
      moreover have "xs ! q' \<in> set xs" using Cons.prems Suc by simp
      ultimately have "x \<in> set (filter P xs)" by simp
      then show ?thesis using Cons.prems(1) \<open>P x\<close> by simp
    qed (simp add: 0)
  next
    case (Suc p')
    have Pp: "P (xs ! p')" using Cons.prems(4) Suc by simp
    have "p' < length xs" using Cons.prems(2) Suc by simp
    then have "xs ! p' \<in> set xs" by (rule nth_mem)
    then have mem: "xs ! p' \<in> set (filter P xs)" using Pp by simp
    show ?thesis
    proof (cases q)
      case 0
      then have "xs ! p' = x" using Cons.prems Suc by simp
      then have "P x" "x \<in> set (filter P xs)" using Pp mem by simp_all
      then show ?thesis using Cons.prems(1) by simp
    next
      case (Suc q')
      have "distinct (filter P xs)" using Cons.prems(1) by (simp split: if_splits)
      then have "p' = q'"
        by (rule Cons.IH) (use Cons.prems Suc \<open>p = Suc p'\<close> in simp_all)
      then show ?thesis using Suc \<open>p = Suc p'\<close> by simp
    qed
  qed
qed

lemma distinct_live_slots_nth:
  assumes "distinct (live_slots sl)" "p < length sl" "q < length sl"
    "index (sl ! p) \<noteq> UINT32_MAX" "sl ! p = sl ! q"
  shows "p = q"
  using distinct_filter_nth [of "\<lambda>s. index s \<noteq> UINT32_MAX" sl p q] assms
  unfolding live_slots_def by blast

lemma length_filter_take_le: "length (filter P (take n xs)) \<le> length (filter P xs)"
proof -
  have "filter P xs = filter P (take n xs) @ filter P (drop n xs)"
    by (metis append_take_drop_id filter_append)
  then show ?thesis by simp
qed

lemma empty_slot_exists:
  assumes "size (mset (live_slots sl)) < M" "M \<le> length sl"
  shows "\<exists>p<M. index (sl ! p) = UINT32_MAX"
proof (rule ccontr)
  assume "\<not> ?thesis"
  then have all: "\<forall>p<M. index (sl ! p) \<noteq> UINT32_MAX" by simp
  have "filter (\<lambda>s. index s \<noteq> UINT32_MAX) (take M sl) = take M sl"
    using all assms(2) by (auto simp: filter_id_conv in_set_conv_nth)
  then have "length (filter (\<lambda>s. index s \<noteq> UINT32_MAX) (take M sl)) = M"
    using assms(2) by simp
  then have "M \<le> length (live_slots sl)"
    using length_filter_take_le [of "\<lambda>s. index s \<noteq> UINT32_MAX" M sl]
    by (simp add: live_slots_def)
  then show False using assms(1) by simp
qed

section \<open>Probe chains\<close>

lemma ring_dist_step:
  assumes "s < M" "j < M"
  shows "((s + j) mod M + M - s) mod M = (j :: nat)"
proof -
  have p: "(s + j) mod M < M" using assms by simp
  have "(s + ((s + j) mod M + M - s) mod M) mod M = (s + j) mod M"
    using ring_dist(2) [OF assms(1) p] .
  moreover have "((s + j) mod M + M - s) mod M < M" using assms by simp
  ultimately show ?thesis
    using ring_steps_inj [of "((s + j) mod M + M - s) mod M" M j s] assms(2) by simp
qed

lemma chain_ok_replicate_empty:
  "chain_ok sc (replicate n \<lparr>hash = h, index = UINT32_MAX\<rparr>)"
  by (simp add: chain_ok_def)

lemma chain_ok_insert:
  assumes ok: "chain_ok sc sl" and sc: "0 < sc"
    and j: "j < ring sc" and p: "p = (home sc (hash s) + j) mod ring sc"
    and before: "\<forall>i<j. index (sl ! ((home sc (hash s) + i) mod ring sc)) \<noteq> UINT32_MAX"
    and s: "index s \<noteq> UINT32_MAX"
  shows "chain_ok sc (sl[p := s])"
  unfolding chain_ok_def
proof (intro allI impI)
  let ?M = "ring sc"
  fix q assume q: "q < length (sl[p := s])" and l: "index (sl[p := s] ! q) \<noteq> UINT32_MAX"
  have M: "0 < ?M" using sc by (rule ring_pos)
  have hs: "home sc (hash s) < ?M" using sc by (rule home_less_ring)
  have upd: "index (sl[p := s] ! r) \<noteq> UINT32_MAX" if "index (sl ! r) \<noteq> UINT32_MAX" for r
    using that s by (cases "r = p"; cases "p < length sl") (simp_all add: list_update_beyond)
  show "q < ?M \<and>
       (\<forall>i<(q + ?M - home sc (hash (sl[p := s] ! q))) mod ?M.
           index (sl[p := s] ! ((home sc (hash (sl[p := s] ! q)) + i) mod ?M)) \<noteq> UINT32_MAX)"
  proof (cases "q = p")
    case True
    then have e: "sl[p := s] ! q = s" using q by simp
    have "(q + ?M - home sc (hash s)) mod ?M = j"
      unfolding True p using hs j by (rule ring_dist_step)
    moreover have "q < ?M" unfolding True p using M by simp
    ultimately show ?thesis using before upd by (simp add: e)
  next
    case False
    then have e: "sl[p := s] ! q = sl ! q" by simp
    have "q < length sl" using q by simp
    moreover have "index (sl ! q) \<noteq> UINT32_MAX" using l e by simp
    ultimately have "q < ?M \<and>
       (\<forall>i<(q + ?M - home sc (hash (sl ! q))) mod ?M.
           index (sl ! ((home sc (hash (sl ! q)) + i) mod ?M)) \<noteq> UINT32_MAX)"
      using ok unfolding chain_ok_def by blast
    then show ?thesis using upd by (simp add: e)
  qed
qed

section \<open>The rehash\<close>

lemma rehash_probe_unfold:
  "rehash_probe ns nsc s start idx =
     (case rehash_stop ns s (unat idx) of
        Some r \<Rightarrow> Some r
      | None \<Rightarrow>
          if (of_nat (unat (idx + 1) mod nsc) :: 32 word) \<noteq> start
          then rehash_probe ns nsc s start (of_nat (unat (idx + 1) mod nsc))
          else Some (Inr ns))"
  by (subst rehash_probe.simps) (simp add: rehash_stop_def Let_def)

lemma rehash_probe_inserts:
  assumes nsc: "0 < nsc" and len: "length ns = nsc" and ok: "chain_ok nsc ns"
    and room: "size (mset (live_slots ns)) < ring nsc" and s: "index s \<noteq> UINT32_MAX"
  shows "\<exists>ns'. rehash_probe ns nsc s (of_nat (unat (hash s) mod nsc))
                 (of_nat (unat (hash s) mod nsc)) = Some (Inr ns') \<and>
           length ns' = nsc \<and> chain_ok nsc ns' \<and>
           mset (live_slots ns') = mset (live_slots ns) + {#s#}"
proof -
  let ?M = "ring nsc"
  let ?start = "of_nat (unat (hash s) mod nsc) :: 32 word"
  let ?pos = "\<lambda>i. (home nsc (hash s) + i) mod ?M"
  have M: "0 < ?M" "?M \<le> length ns" using ring_pos [OF nsc] ring_le [of nsc] len by simp_all
  have hs: "home nsc (hash s) < ?M" using nsc by (rule home_less_ring)
  have pos: "?pos i < length ns" for i
    using M mod_less_divisor [of ?M "home nsc (hash s) + i"] by linarith
  note R = probe_loop_result [where L = "\<lambda>idx n. rehash_probe ns nsc s ?start idx"
        and St = "rehash_stop ns s" and F = "\<lambda>r n. Some r"
        and sc = nsc and start = ?start and W = "\<lambda>n. Some (Inr ns)" and h = "hash s",
        OF rehash_probe_unfold nsc refl]
  from R show ?thesis
  proof cases
    case (1 j r)
    let ?p = "?pos j"
    have e: "index (ns ! ?p) = UINT32_MAX" and r: "r = Inr (ns[?p := s])"
      using 1(2) pos [of j] by (auto simp: rehash_stop_def split: if_splits)
    have before: "\<forall>i<j. index (ns ! ?pos i) \<noteq> UINT32_MAX"
      using 1(3) by (auto simp: rehash_stop_def split: if_splits)
    have "chain_ok nsc (ns[?p := s])"
      using ok nsc 1(1) refl before s by (rule chain_ok_insert)
    moreover have "mset (live_slots (ns[?p := s])) = mset (live_slots ns) + {#s#}"
      using pos [of j] e s by (rule live_slots_update_empty)
    ultimately show ?thesis using 1(4) r len by simp
  next
    case 2
    obtain p where p: "p < ?M" "index (ns ! p) = UINT32_MAX"
      using empty_slot_exists [OF room M(2)] by blast
    let ?d = "(p + ?M - home nsc (hash s)) mod ?M"
    have "?d < ?M" "?pos ?d = p" using ring_dist [OF hs p(1)] by simp_all
    then have "rehash_stop ns s p = None" using 2(1) by metis
    then show ?thesis using p(2) by (simp add: rehash_stop_def split: if_splits)
  qed
qed

lemma rehash_loop_correct:
  assumes nsc: "0 < nsc" and len: "length (slots m) = slot_count m"
    and room: "size (mset (live_slots (slots m))) < ring nsc"
  shows "i \<le> slot_count m \<Longrightarrow> length ns = nsc \<Longrightarrow> chain_ok nsc ns \<Longrightarrow>
     mset (live_slots ns) = mset (live_slots (take i (slots m))) \<Longrightarrow>
     \<exists>ns'. rehash_loop m nsc ns i = Some (Inr ns') \<and> length ns' = nsc \<and>
       chain_ok nsc ns' \<and> mset (live_slots ns') = mset (live_slots (slots m))"
proof (induction "slot_count m - i" arbitrary: i ns)
  case 0
  then have "i = slot_count m" by simp
  then show ?case using 0 len by (subst rehash_loop.simps) simp
next
  case (Suc d)
  then have i: "i < slot_count m" by simp
  then have il: "i < length (slots m)" using len by simp
  let ?s = "slots m ! i"
  show ?case
  proof (cases "index ?s = UINT32_MAX")
    case True
    have "\<exists>ns'. rehash_loop m nsc ns (i + 1) = Some (Inr ns') \<and> length ns' = nsc \<and>
       chain_ok nsc ns' \<and> mset (live_slots ns') = mset (live_slots (slots m))"
      by (rule Suc(1)) (use Suc i il True in \<open>simp_all add: live_slots_take_Suc\<close>)
    then show ?thesis using i il True by (subst rehash_loop.simps) simp
  next
    case False
    have "length (live_slots (take i (slots m))) \<le> length (live_slots (slots m))"
      unfolding live_slots_def by (rule length_filter_take_le)
    then have "size (mset (live_slots ns)) < ring nsc"
      using room Suc(6) by simp
    from rehash_probe_inserts [OF nsc Suc(4) Suc(5) this False]
    obtain ns1 where ns1: "rehash_probe ns nsc ?s (of_nat (unat (hash ?s) mod nsc))
          (of_nat (unat (hash ?s) mod nsc)) = Some (Inr ns1)"
        "length ns1 = nsc" "chain_ok nsc ns1"
        "mset (live_slots ns1) = mset (live_slots ns) + {#?s#}"
      by blast
    have "\<exists>ns'. rehash_loop m nsc ns1 (i + 1) = Some (Inr ns') \<and> length ns' = nsc \<and>
       chain_ok nsc ns' \<and> mset (live_slots ns') = mset (live_slots (slots m))"
      by (rule Suc(1))
        (use Suc i il False ns1 in \<open>simp_all add: live_slots_take_Suc\<close>)
    then show ?thesis using i il False nsc ns1(1)
      by (subst rehash_loop.simps) (simp add: Let_def)
  qed
qed

section \<open>Reserving\<close>

lemma table_invD:
  assumes "table_inv mem m"
  shows "0 < slot_count m" "slot_count m < 2 ^ 61" "length (slots m) = slot_count m"
    "length (items m) = capacity m" "capacity m < 2 ^ 60"
    "count m \<le> capacity m" "count m \<le> slot_count m * 3 div 4" "count m < 2 ^ 32"
    "mset (live_slots (slots m)) = mset (map (item_slot mem (entries m)) [0..<count m])"
    "chain_ok (slot_count m) (slots m)"
    "distinct (map (\<lambda>it. cstr (mem (key it))) (entries m))"
  using assms unfolding table_inv_def by blast+

lemma table_invI:
  assumes "0 < slot_count m" "slot_count m < 2 ^ 61" "length (slots m) = slot_count m"
    "length (items m) = capacity m" "capacity m < 2 ^ 60"
    "count m \<le> capacity m" "count m \<le> slot_count m * 3 div 4" "count m < 2 ^ 32"
    "mset (live_slots (slots m)) = mset (map (item_slot mem (entries m)) [0..<count m])"
    "chain_ok (slot_count m) (slots m)"
    "distinct (map (\<lambda>it. cstr (mem (key it))) (entries m))"
  shows "table_inv mem m"
  using assms unfolding table_inv_def by blast

lemma length_live_slots: "table_inv mem m \<Longrightarrow> length (live_slots (slots m)) = count m"
  using arg_cong [OF table_invD(9), of mem m size] by simp

lemma reserve_capacity_loop_correct:
  assumes "need \<le> 2 ^ 59"
  shows "0 < cap \<Longrightarrow> cap < 2 ^ 60 \<Longrightarrow>
     \<exists>c. reserve_capacity_loop need cap = Some c \<and> need \<le> c \<and> cap \<le> c \<and> c < 2 ^ 60"
proof (induction "need - cap" arbitrary: cap rule: less_induct)
  case less
  show ?case
  proof (cases "need > cap")
    case True
    then have c2: "cap * 2 < 2 ^ 60" using assms by simp
    then have m: "cap * 2 mod 2 ^ 64 = cap * 2" by simp
    have "\<exists>c. reserve_capacity_loop need (cap * 2) = Some c \<and> need \<le> c \<and>
        cap * 2 \<le> c \<and> c < 2 ^ 60"
      by (rule less(1)) (use less(2) True c2 in simp_all)
    then obtain c where "reserve_capacity_loop need (cap * 2) = Some c" "need \<le> c"
        "cap * 2 \<le> c" "c < 2 ^ 60" by blast
    then show ?thesis using True m
      by (subst reserve_capacity_loop.simps) simp
  next
    case False
    then show ?thesis using less(3)
      by (subst reserve_capacity_loop.simps) simp
  qed
qed

lemma realloc_items_grow:
  assumes "length its \<le> cap" "cap < 2 ^ 60"
  shows "realloc_items served its (cap * 16 mod 2 ^ 64) =
     Some (its @ replicate (cap - length its) \<lparr>key = NULL, value_ref = NULL\<rparr>)"
proof -
  have "cap * 16 < 2 ^ 64" using assms(2) by simp
  then have "cap * 16 mod 2 ^ 64 div 16 = cap" by simp
  then show ?thesis using assms(1) by (simp add: realloc_items_def)
qed

lemma reserve_items_correct:
  assumes inv: "table_inv mem m" and need: "(count m + extra) mod 2 ^ 64 \<le> 2 ^ 59"
  shows "\<exists>m'. reserve_items served m extra = Some (Inr m') \<and> table_inv mem m' \<and>
     entries m' = entries m \<and> count m' = count m \<and> slots m' = slots m \<and>
     slot_count m' = slot_count m \<and> (count m + extra) mod 2 ^ 64 \<le> capacity m' \<and>
     take (capacity m) (items m') = items m \<and>
     ((count m + extra) mod 2 ^ 64 \<le> capacity m \<longrightarrow> m' = m)"
proof -
  note I = table_invD [OF inv]
  define nd where "nd = (count m + extra) mod 2 ^ 64"
  have ne: "nd \<le> 2 ^ 59" using need unfolding nd_def .
  show ?thesis
  proof (cases "nd > capacity m")
    case False
    then show ?thesis using inv I(4) unfolding reserve_items_def nd_def by simp
  next
    case True
    let ?cap0 = "if capacity m = 0 then 16 else capacity m"
    have "0 < ?cap0" "?cap0 < 2 ^ 60" using I(5) by simp_all
    with reserve_capacity_loop_correct [of nd ?cap0] ne
    obtain c where c: "reserve_capacity_loop nd ?cap0 = Some c"
        "nd \<le> c" "?cap0 \<le> c" "c < 2 ^ 60"
      by auto
    define its where
      "its = items m @ replicate (c - length (items m)) \<lparr>key = NULL, value_ref = NULL\<rparr>"
    define m' where "m' = m\<lparr>capacity := c, items := its\<rparr>"
    have cc: "capacity m \<le> c" using c(3) by (simp split: if_splits)
    have ra: "realloc_items served (items m) (c * 16 mod 2 ^ 64) = Some its"
      unfolding its_def by (rule realloc_items_grow) (use cc c(4) I(4) in simp_all)
    have f: "slots m' = slots m" "slot_count m' = slot_count m" "count m' = count m"
        "capacity m' = c" "items m' = its"
      unfolding m'_def by simp_all
    have ent: "entries m' = entries m"
      using I(4,6) unfolding entries_def its_def f by simp
    have len: "length its = c"
      using cc I(4) unfolding its_def by simp
    have tk: "take (capacity m) (items m') = items m"
      using I(4) unfolding f its_def by simp
    have "table_inv mem m'"
      by (rule table_invI) (use I c cc in \<open>simp_all add: ent len f\<close>)
    moreover have "reserve_items served m extra = Some (Inr m')"
      using True c(1) ra unfolding reserve_items_def nd_def [symmetric] m'_def by simp
    ultimately show ?thesis using ent c(2) tk f True unfolding nd_def [symmetric] by simp
  qed
qed

lemma alloc_memset_empty:
  assumes "n < 2 ^ 61"
  shows "memset_alloc (alloc_slots served (n * 8 mod 2 ^ 64)) 0xFF (n * 8 mod 2 ^ 64) =
     Inr (Some (replicate n \<lparr>hash = UINT32_MAX, index = UINT32_MAX\<rparr>))"
proof -
  have "n * 8 < 2 ^ 64" using assms by simp
  then have "n * 8 mod 2 ^ 64 = n * 8" by simp
  then show ?thesis
    by (simp add: memset_alloc_def trashmap_memset_def alloc_slots_def fill_slot_FF)
qed

lemma load_after_doubling:
  assumes "0 < (sc :: nat)" "c \<le> sc * 3 div 4"
  shows "c + 1 \<le> sc * 2 * 3 div 4"
proof (cases "sc = 1")
  case True
  then show ?thesis using assms(2) by simp
next
  case False
  then have sc2: "2 \<le> sc" using assms(1) by simp
  define d where "d = sc * 3 div 4"
  have "d * 4 \<le> sc * 3" unfolding d_def by (rule div_times_less_eq_dividend)
  moreover have "c \<le> d" using assms(2) unfolding d_def .
  ultimately have "(c + 1) * 4 \<le> sc * 2 * 3" using sc2 by simp
  then show ?thesis by (subst less_eq_div_iff_mult_less_eq) simp_all
qed

lemma reserve_slots_correct:
  assumes inv: "table_inv mem m" and need: "(count m + extra) mod 2 ^ 64 \<le> 2 ^ 59"
  shows "\<exists>m'. reserve_slots served m extra = Some (Inr m') \<and> table_inv mem m' \<and>
     items m' = items m \<and> count m' = count m \<and> capacity m' = capacity m \<and>
     (slot_count m' = slot_count m \<or> slot_count m' = 2 * slot_count m) \<and>
     (count m < (count m + extra) mod 2 ^ 64 \<longrightarrow> count m + 1 \<le> slot_count m' * 3 div 4) \<and>
     ((count m + extra) mod 2 ^ 64 \<le> slot_count m * 3 div 4 \<longrightarrow> m' = m)"
proof -
  note I = table_invD [OF inv]
  let ?sc = "slot_count m"
  define nd where "nd = (count m + extra) mod 2 ^ 64"
  have ne: "nd \<le> 2 ^ 59" using need unfolding nd_def .
  have "?sc * 3 < 2 ^ 64" using I(2) by simp
  then have sc3: "?sc * 3 mod 2 ^ 64 = ?sc * 3" by simp
  show ?thesis
  proof (cases "nd > ?sc * 3 div 4")
    case False
    then show ?thesis using inv unfolding reserve_slots_def nd_def [symmetric] sc3 by simp
  next
    case True
    let ?nsc = "?sc * 2"
    have "?sc * 3 div 4 < 2 ^ 59" using True ne by simp
    then have small: "?sc < 2 ^ 60" by simp
    then have nsc: "?sc * 2 mod 2 ^ 64 = ?nsc" "?nsc < 2 ^ 61" "0 < ?nsc"
      using I(1) by simp_all
    let ?ns = "replicate ?nsc \<lparr>hash = UINT32_MAX, index = UINT32_MAX\<rparr>"
    have ms: "memset_alloc (alloc_slots served (?nsc * 8 mod 2 ^ 64)) 0xFF (?nsc * 8 mod 2 ^ 64)
        = Inr (Some ?ns)"
      using nsc(2) by (rule alloc_memset_empty)
    have "count m < ?nsc" using I(1,7) by simp
    then have room: "size (mset (live_slots (slots m))) < ring ?nsc"
      using I(8) by (simp add: length_live_slots [OF inv] ring_def)
    have "\<exists>ns'. rehash_loop m ?nsc ?ns 0 = Some (Inr ns') \<and> length ns' = ?nsc \<and>
       chain_ok ?nsc ns' \<and> mset (live_slots ns') = mset (live_slots (slots m))"
      by (rule rehash_loop_correct [OF nsc(3) I(3) room])
        (simp_all add: chain_ok_replicate_empty live_slots_replicate_empty live_slots_def)
    then obtain ns' where ns': "rehash_loop m ?nsc ?ns 0 = Some (Inr ns')"
        "length ns' = ?nsc" "chain_ok ?nsc ns'"
        "mset (live_slots ns') = mset (live_slots (slots m))"
      by blast
    define m' where "m' = m\<lparr>slots := ns', slot_count := ?nsc\<rparr>"
    have f: "slots m' = ns'" "slot_count m' = ?nsc" "count m' = count m"
        "capacity m' = capacity m" "items m' = items m"
      unfolding m'_def by simp_all
    have ent: "entries m' = entries m" by (simp add: entries_def f)
    have "table_inv mem m'"
      by (rule table_invI) (use I nsc ns' in \<open>simp_all add: ent f\<close>)
    moreover have "reserve_slots served m extra = Some (Inr m')"
      using True ns'(1)
      unfolding reserve_slots_def nd_def [symmetric] sc3 nsc(1) Let_def ms m'_def
      by simp
    moreover have "count m + 1 \<le> ?nsc * 3 div 4"
      using I(1,7) by (rule load_after_doubling)
    ultimately show ?thesis using f True unfolding nd_def [symmetric] by simp
  qed
qed

lemma trashmap_reserve_correct:
  assumes inv: "table_inv mem m" and need: "(count m + extra) mod 2 ^ 64 \<le> 2 ^ 59"
  shows "\<exists>m'. trashmap_reserve served m extra = Some (Inr m') \<and> table_inv mem m' \<and>
     entries m' = entries m \<and> count m' = count m \<and>
     (count m + extra) mod 2 ^ 64 \<le> capacity m' \<and>
     take (capacity m) (items m') = items m \<and>
     (slot_count m' = slot_count m \<or> slot_count m' = 2 * slot_count m) \<and>
     (count m < (count m + extra) mod 2 ^ 64 \<longrightarrow> count m + 1 \<le> slot_count m' * 3 div 4) \<and>
     ((count m + extra) mod 2 ^ 64 \<le> capacity m \<longrightarrow> capacity m' = capacity m) \<and>
     ((count m + extra) mod 2 ^ 64 \<le> capacity m \<and>
      (count m + extra) mod 2 ^ 64 \<le> slot_count m * 3 div 4 \<longrightarrow> m' = m)"
proof -
  from reserve_items_correct [OF inv need]
  obtain m1 where m1: "reserve_items served m extra = Some (Inr m1)" "table_inv mem m1"
      "entries m1 = entries m" "count m1 = count m" "slot_count m1 = slot_count m"
      "(count m + extra) mod 2 ^ 64 \<le> capacity m1" "take (capacity m) (items m1) = items m"
      "(count m + extra) mod 2 ^ 64 \<le> capacity m \<longrightarrow> m1 = m"
    by blast
  have need1: "(count m1 + extra) mod 2 ^ 64 \<le> 2 ^ 59" using need m1(4) by simp
  from reserve_slots_correct [OF m1(2) need1]
  obtain m2 where m2: "reserve_slots served m1 extra = Some (Inr m2)" "table_inv mem m2"
      "items m2 = items m1" "count m2 = count m1" "capacity m2 = capacity m1"
      "slot_count m2 = slot_count m1 \<or> slot_count m2 = 2 * slot_count m1"
      "count m1 < (count m1 + extra) mod 2 ^ 64 \<longrightarrow> count m1 + 1 \<le> slot_count m2 * 3 div 4"
      "(count m1 + extra) mod 2 ^ 64 \<le> slot_count m1 * 3 div 4 \<longrightarrow> m2 = m1"
    by blast
  have "entries m2 = entries m" using m1(3,4) m2(3,4) by (simp add: entries_def)
  then show ?thesis using m1 m2 by (auto simp: trashmap_reserve_def)
qed

section \<open>Slots and entries of a table that satisfies the invariant\<close>

lemma length_entries: "table_inv mem m \<Longrightarrow> length (entries m) = count m"
  using table_invD(4,6) [of mem m] by (simp add: entries_def)

lemma entries_nth: "table_inv mem m \<Longrightarrow> j < count m \<Longrightarrow> entries m ! j = items m ! j"
  by (simp add: entries_def)

lemma item_slot_index: "j < 2 ^ 32 \<Longrightarrow> unat (index (item_slot mem es j)) = j"
  by (simp add: item_slot_def unat_of_nat)

lemma item_slot_live: "j + 1 < 2 ^ 32 \<Longrightarrow> index (item_slot mem es j) \<noteq> UINT32_MAX"
  by (simp add: item_slot_def of_nat_neq_UINT32_MAX)

lemma item_slot_inj:
  assumes "j < 2 ^ 32" "j' < 2 ^ 32" "item_slot mem es j = item_slot mem es j'"
  shows "j = j'"
proof -
  have "unat (index (item_slot mem es j)) = unat (index (item_slot mem es j'))"
    by (simp only: assms(3))
  then show ?thesis
    unfolding item_slot_index [OF assms(1)] item_slot_index [OF assms(2)] .
qed

lemma distinct_item_slots:
  assumes "n \<le> 2 ^ 32"
  shows "distinct (map (item_slot mem es) [0..<n])"
proof -
  have "inj_on (item_slot mem es) (set [0..<n])"
    by (rule inj_onI) (use assms in \<open>auto intro: item_slot_inj\<close>)
  then show ?thesis by (simp add: distinct_map)
qed

lemma distinct_live: "table_inv mem m \<Longrightarrow> distinct (live_slots (slots m))"
proof -
  assume inv: "table_inv mem m"
  have "distinct (map (item_slot mem (entries m)) [0..<count m])"
    by (rule distinct_item_slots) (use table_invD(8) [OF inv] in simp)
  then show ?thesis
    using table_invD(9) [OF inv] mset_eq_imp_distinct_iff by blast
qed

lemma slot_is_item:
  assumes inv: "table_inv mem m" and p: "p < slot_count m"
    and l: "index (slots m ! p) \<noteq> UINT32_MAX"
  shows "\<exists>j<count m. slots m ! p = item_slot mem (entries m) j"
proof -
  have "slots m ! p \<in> set (live_slots (slots m))"
    using p l table_invD(3) [OF inv] by (simp add: live_slots_nth_mem)
  then have "slots m ! p \<in># mset (live_slots (slots m))" by simp
  then have "slots m ! p \<in> set (map (item_slot mem (entries m)) [0..<count m])"
    unfolding table_invD(9) [OF inv] by simp
  then show ?thesis by auto
qed

lemma item_has_slot:
  assumes inv: "table_inv mem m" and j: "j < count m"
  shows "\<exists>p. p < slot_count m \<and> slots m ! p = item_slot mem (entries m) j"
proof -
  have "item_slot mem (entries m) j \<in> set (map (item_slot mem (entries m)) [0..<count m])"
    using j by simp
  then have "item_slot mem (entries m) j \<in># mset (live_slots (slots m))"
    unfolding table_invD(9) [OF inv] by simp
  then have "item_slot mem (entries m) j \<in> set (live_slots (slots m))" by simp
  then show ?thesis
    using live_slots_memD [of "item_slot mem (entries m) j" "slots m"]
      table_invD(3) [OF inv] by auto
qed

lemma same_key_hash:
  "same_key mem k it \<Longrightarrow> trashmap_hash (mem (key it)) = trashmap_hash (mem k)"
  unfolding same_key_def by (rule trashmap_hash_cstr)

lemma same_key_unique:
  assumes inv: "table_inv mem m" and j: "j < count m" "j' < count m"
    and s: "same_key mem k (entries m ! j)" "same_key mem k (entries m ! j')"
  shows "j = j'"
proof -
  let ?ks = "map (\<lambda>it. cstr (mem (key it))) (entries m)"
  have "distinct ?ks" by (rule table_invD(11) [OF inv])
  moreover have "j < length ?ks" "j' < length ?ks"
    using j length_entries [OF inv] by simp_all
  moreover have "?ks ! j = ?ks ! j'"
    using s j length_entries [OF inv] by (simp add: same_key_def)
  ultimately show ?thesis using nth_eq_iff_index_eq [of ?ks j j'] by blast
qed

lemma key_matches_inv:
  assumes inv: "table_inv mem m" and p: "p < slot_count m"
    and l: "index (slots m ! p) \<noteq> UINT32_MAX"
  shows "unat (index (slots m ! p)) < count m"
    and "key_matches mem m k (trashmap_hash (mem k)) (hash (slots m ! p))
           (index (slots m ! p)) =
         Inr (same_key mem k (entries m ! unat (index (slots m ! p))))"
proof -
  from slot_is_item [OF inv p l] obtain j where j: "j < count m"
      "slots m ! p = item_slot mem (entries m) j" by blast
  note I = table_invD [OF inv]
  have j32: "j < 2 ^ 32" using j(1) I(8) by simp
  have u: "unat (index (slots m ! p)) = j" unfolding j(2) using j32 by (rule item_slot_index)
  show "unat (index (slots m ! p)) < count m" using u j(1) by simp
  have h: "hash (slots m ! p) = trashmap_hash (mem (key (entries m ! j)))"
    unfolding j(2) by (simp add: item_slot_def)
  have e: "entries m ! j = items m ! j" using inv j(1) by (rule entries_nth)
  have jl: "j < length (items m)" using j(1) I(4,6) by simp
  show "key_matches mem m k (trashmap_hash (mem k)) (hash (slots m ! p))
           (index (slots m ! p)) =
         Inr (same_key mem k (entries m ! unat (index (slots m ! p))))"
  proof (cases "same_key mem k (entries m ! j)")
    case True
    then have "trashmap_hash (mem (key (entries m ! j))) = trashmap_hash (mem k)"
      by (rule same_key_hash)
    moreover have "trashmap_strcmp (mem k) (mem (key (items m ! j))) = 0"
      using True unfolding e same_key_def trashmap_strcmp_eq_0_iff by simp
    ultimately show ?thesis using True jl unfolding key_matches_def u h by simp
  next
    case False
    then have "trashmap_strcmp (mem k) (mem (key (items m ! j))) \<noteq> 0"
      unfolding e same_key_def trashmap_strcmp_eq_0_iff by auto
    then show ?thesis using False jl unfolding key_matches_def u h by simp
  qed
qed

lemma probe_present:
  assumes inv: "table_inv mem m" and j: "j < count m"
    and s: "same_key mem k (entries m ! j)"
  shows "\<exists>d<ring (slot_count m).
     slots m ! ((home (slot_count m) (trashmap_hash (mem k)) + d) mod ring (slot_count m))
       = item_slot mem (entries m) j \<and>
     (\<forall>i<d. \<not> probe_stops mem m k
        ((home (slot_count m) (trashmap_hash (mem k)) + i) mod ring (slot_count m)))"
proof -
  note I = table_invD [OF inv]
  let ?sc = "slot_count m" and ?M = "ring (slot_count m)"
  let ?h = "trashmap_hash (mem k)"
  let ?pos = "\<lambda>i. (home ?sc ?h + i) mod ?M"
  from item_has_slot [OF inv j] obtain q where q: "q < ?sc"
      "slots m ! q = item_slot mem (entries m) j" by blast
  have j1: "j + 1 < 2 ^ 32" using j I(8) by simp
  have lq: "index (slots m ! q) \<noteq> UINT32_MAX"
    unfolding q(2) using j1 by (rule item_slot_live)
  have hq: "hash (slots m ! q) = ?h"
    unfolding q(2) using same_key_hash [OF s] by (simp add: item_slot_def)
  have ch: "q < ?M \<and> (\<forall>i<(q + ?M - home ?sc ?h) mod ?M. index (slots m ! ?pos i) \<noteq> UINT32_MAX)"
    using I(10) q(1) lq I(3) unfolding chain_ok_def hq [symmetric] by simp
  let ?d = "(q + ?M - home ?sc ?h) mod ?M"
  have hM: "home ?sc ?h < ?M" using I(1) by (rule home_less_ring)
  have d: "?d < ?M" "?pos ?d = q" using ring_dist [OF hM] ch by simp_all
  have "\<not> probe_stops mem m k (?pos i)" if i: "i < ?d" for i
  proof
    assume st: "probe_stops mem m k (?pos i)"
    have li: "index (slots m ! ?pos i) \<noteq> UINT32_MAX" using ch i by simp
    have pi: "?pos i < ?sc"
      using hM ring_le [of ?sc] mod_less_divisor [of ?M "home ?sc ?h + i"] by linarith
    from slot_is_item [OF inv pi li] obtain j' where j': "j' < count m"
        "slots m ! ?pos i = item_slot mem (entries m) j'" by blast
    have "unat (index (slots m ! ?pos i)) = j'"
      unfolding j'(2) by (rule item_slot_index) (use j'(1) I(8) in simp)
    then have "same_key mem k (entries m ! j')"
      using st li unfolding probe_stops_def by simp
    then have "j' = j" using same_key_unique [OF inv j'(1) j _ s] by simp
    then have "slots m ! ?pos i = slots m ! q" using j'(2) q(2) by simp
    then have "?pos i = q"
      using distinct_live_slots_nth [OF distinct_live [OF inv], of "?pos i" q] pi q(1) li I(3)
      by simp
    then have "?pos i = ?pos ?d" using d(2) by simp
    then have "i = ?d" using ring_steps_inj [of i ?M ?d "home ?sc ?h"] i d(1) by simp
    then show False using i by simp
  qed
  then have "\<forall>i<?d. \<not> probe_stops mem m k (?pos i)" by blast
  moreover have "slots m ! ?pos ?d = item_slot mem (entries m) j"
    unfolding d(2) by (rule q(2))
  ultimately show ?thesis using d(1) by blast
qed

section \<open>Lookups\<close>

lemma pos_less:
  assumes "table_inv mem m"
  shows "(home (slot_count m) h + i) mod ring (slot_count m) < ring (slot_count m)"
    and "(home (slot_count m) h + i) mod ring (slot_count m) < slot_count m"
    and "(home (slot_count m) h + i) mod ring (slot_count m) < length (slots m)"
proof -
  note I = table_invD [OF assms]
  have M: "0 < ring (slot_count m)" using I(1) by (rule ring_pos)
  then show a: "(home (slot_count m) h + i) mod ring (slot_count m) < ring (slot_count m)"
    by simp
  then show b: "(home (slot_count m) h + i) mod ring (slot_count m) < slot_count m"
    using ring_le [of "slot_count m"] by linarith
  then show "(home (slot_count m) h + i) mod ring (slot_count m) < length (slots m)"
    using I(3) by simp
qed

lemma entries_has_nth:
  assumes "table_inv mem m"
  shows "entries_has mem (entries m) k \<longleftrightarrow> (\<exists>j<count m. same_key mem k (entries m ! j))"
  unfolding entries_has_def Bex_def in_set_conv_nth length_entries [OF assms] by blast

lemma entries_get_present:
  assumes inv: "table_inv mem m" and j: "j < count m"
    and s: "same_key mem k (entries m ! j)"
  shows "entries_get mem (entries m) k = value_ref (entries m ! j)"
proof -
  have "find (same_key mem k) (entries m) = Some (entries m ! j)"
    unfolding find_Some_iff
  proof (intro exI [of _ j] conjI allI impI)
    show "j < length (entries m)" using j length_entries [OF inv] by simp
    show "same_key mem k (entries m ! j)" by (rule s)
    show "entries m ! j = entries m ! j" by simp
  next
    fix i assume i: "i < j"
    show "\<not> same_key mem k (entries m ! i)"
    proof
      assume "same_key mem k (entries m ! i)"
      then have "i = j" using same_key_unique [OF inv _ j _ s, of i] i j by simp
      then show False using i by simp
    qed
  qed
  then show ?thesis by (simp add: entries_get_def)
qed

lemma entries_get_absent:
  "\<not> entries_has mem es k \<Longrightarrow> entries_get mem es k = NULL"
proof -
  assume "\<not> entries_has mem es k"
  then have "find (same_key mem k) es = None"
    unfolding find_None_iff entries_has_def by blast
  then show ?thesis by (simp add: entries_get_def)
qed

lemma first_stop_present:
  assumes inv: "table_inv mem m" and j: "j < count m"
    and s: "same_key mem k (entries m ! j)"
    and jj: "jj < ring (slot_count m)"
    and st: "probe_stops mem m k
       ((home (slot_count m) (trashmap_hash (mem k)) + jj) mod ring (slot_count m))"
    and before: "\<forall>i<jj. \<not> probe_stops mem m k
       ((home (slot_count m) (trashmap_hash (mem k)) + i) mod ring (slot_count m))"
  shows "slots m ! ((home (slot_count m) (trashmap_hash (mem k)) + jj) mod ring (slot_count m))
     = item_slot mem (entries m) j"
proof -
  note I = table_invD [OF inv]
  let ?pos = "\<lambda>i. (home (slot_count m) (trashmap_hash (mem k)) + i) mod ring (slot_count m)"
  from probe_present [OF inv j s] obtain d where d: "d < ring (slot_count m)"
      "slots m ! ?pos d = item_slot mem (entries m) j"
      "\<forall>i<d. \<not> probe_stops mem m k (?pos i)" by blast
  have j32: "j < 2 ^ 32" using j I(8) by simp
  have "unat (index (slots m ! ?pos d)) = j"
    unfolding d(2) using j32 by (rule item_slot_index)
  then have "probe_stops mem m k (?pos d)"
    using s unfolding probe_stops_def by simp
  then have "\<not> d < jj" using before by blast
  moreover have "\<not> jj < d" using d(3) st by blast
  ultimately have "jj = d" by simp
  then show ?thesis using d(2) by simp
qed

lemma stop_exists_present:
  assumes inv: "table_inv mem m" and j: "j < count m"
    and s: "same_key mem k (entries m ! j)"
  shows "\<exists>i<ring (slot_count m). probe_stops mem m k
       ((home (slot_count m) (trashmap_hash (mem k)) + i) mod ring (slot_count m))"
proof -
  note I = table_invD [OF inv]
  let ?pos = "\<lambda>i. (home (slot_count m) (trashmap_hash (mem k)) + i) mod ring (slot_count m)"
  from probe_present [OF inv j s] obtain d where d: "d < ring (slot_count m)"
      "slots m ! ?pos d = item_slot mem (entries m) j" by blast
  have j32: "j < 2 ^ 32" using j I(8) by simp
  have "unat (index (slots m ! ?pos d)) = j"
    unfolding d(2) using j32 by (rule item_slot_index)
  then have "probe_stops mem m k (?pos d)"
    using s unfolding probe_stops_def by simp
  then show ?thesis using d(1) by blast
qed

lemma first_stop_absent:
  assumes inv: "table_inv mem m" and a: "\<not> entries_has mem (entries m) k"
    and p: "p < slot_count m" and st: "probe_stops mem m k p"
  shows "index (slots m ! p) = UINT32_MAX"
proof (rule ccontr)
  assume l: "index (slots m ! p) \<noteq> UINT32_MAX"
  have "unat (index (slots m ! p)) < count m" using inv p l by (rule key_matches_inv(1))
  moreover have "same_key mem k (entries m ! unat (index (slots m ! p)))"
    using st l unfolding probe_stops_def by simp
  ultimately show False using a unfolding entries_has_nth [OF inv] by blast
qed

lemma get_stop_inv:
  assumes inv: "table_inv mem m" and p: "p < slot_count m"
  shows "get_stop mem m k (trashmap_hash (mem k)) p =
     (if probe_stops mem m k p
      then Some (Inr (if index (slots m ! p) = UINT32_MAX then NULL
                      else value_ref (entries m ! unat (index (slots m ! p)))))
      else None)"
proof (cases "index (slots m ! p) = UINT32_MAX")
  case True
  then show ?thesis using p table_invD(3) [OF inv]
    by (simp add: get_stop_def probe_stops_def)
next
  case False
  note K = key_matches_inv [OF inv p False]
  have "entries m ! unat (index (slots m ! p)) = items m ! unat (index (slots m ! p))"
    using inv K(1) by (rule entries_nth)
  then show ?thesis using False p table_invD(3) [OF inv]
    by (simp add: get_stop_def probe_stops_def K(2))
qed

lemma has_stop_inv:
  assumes inv: "table_inv mem m" and p: "p < slot_count m"
  shows "has_stop mem m k (trashmap_hash (mem k)) p =
     (if probe_stops mem m k p then Some (Inr (index (slots m ! p) \<noteq> UINT32_MAX))
      else None)"
proof (cases "index (slots m ! p) = UINT32_MAX")
  case True
  then show ?thesis using p table_invD(3) [OF inv]
    by (simp add: has_stop_def probe_stops_def)
next
  case False
  note K = key_matches_inv [OF inv p False]
  show ?thesis using False p table_invD(3) [OF inv]
    by (simp add: has_stop_def probe_stops_def K(2))
qed

lemma trashmap_get_correct:
  assumes inv: "table_inv mem m"
  shows "\<exists>n. trashmap_get_probes mem m k = Some (Inr (entries_get mem (entries m) k), n)"
proof -
  note I = table_invD [OF inv]
  let ?h = "trashmap_hash (mem k)"
  let ?start = "of_nat (unat ?h mod slot_count m) :: 32 word"
  let ?pos = "\<lambda>i. (home (slot_count m) ?h + i) mod ring (slot_count m)"
  have G: "trashmap_get_probes mem m k = trashmap_get_loop mem m k ?h ?start ?start 0"
    using I(1) by (simp add: trashmap_get_probes_def Let_def)
  have S: "get_stop mem m k ?h (?pos i) =
     (if probe_stops mem m k (?pos i)
      then Some (Inr (if index (slots m ! ?pos i) = UINT32_MAX then NULL
                      else value_ref (entries m ! unat (index (slots m ! ?pos i)))))
      else None)" for i
    by (rule get_stop_inv [OF inv pos_less(2) [OF inv]])
  note R = probe_loop_result [where L = "trashmap_get_loop mem m k ?h ?start"
        and St = "get_stop mem m k ?h" and F = "\<lambda>r n. Some (r, Suc n)"
        and sc = "slot_count m" and start = ?start
        and W = "\<lambda>n. Some (Inr NULL, Suc n)" and h = ?h,
        OF trashmap_get_loop_unfold I(1) refl]
  show ?thesis
  proof (cases "entries_has mem (entries m) k")
    case True
    then obtain j where j: "j < count m" "same_key mem k (entries m ! j)"
      unfolding entries_has_nth [OF inv] by blast
    have j32: "j < 2 ^ 32" "j + 1 < 2 ^ 32" using j(1) I(8) by simp_all
    from R show ?thesis
    proof cases
      case (1 jj r)
      have st: "probe_stops mem m k (?pos jj)"
        using 1(2) unfolding S by (simp split: if_splits)
      have before: "\<forall>i<jj. \<not> probe_stops mem m k (?pos i)"
        using 1(3) unfolding S by (auto split: if_splits)
      have sl: "slots m ! ?pos jj = item_slot mem (entries m) j"
        using inv j 1(1) st before by (rule first_stop_present)
      have "index (slots m ! ?pos jj) \<noteq> UINT32_MAX"
        unfolding sl using j32(2) by (rule item_slot_live)
      moreover have "unat (index (slots m ! ?pos jj)) = j"
        unfolding sl using j32(1) by (rule item_slot_index)
      ultimately have "r = Inr (value_ref (entries m ! j))"
        using 1(2) st unfolding S by simp
      then show ?thesis
        using 1(4) unfolding G entries_get_present [OF inv j] by simp
    next
      case 2
      then have "\<forall>i<ring (slot_count m). \<not> probe_stops mem m k (?pos i)"
        unfolding S by (auto split: if_splits)
      then show ?thesis using stop_exists_present [OF inv j] by blast
    qed
  next
    case False
    note E = entries_get_absent [OF False]
    from R show ?thesis
    proof cases
      case (1 jj r)
      have st: "probe_stops mem m k (?pos jj)"
        using 1(2) unfolding S by (simp split: if_splits)
      have "index (slots m ! ?pos jj) = UINT32_MAX"
        using inv False pos_less(2) [OF inv] st by (rule first_stop_absent)
      then have "r = Inr NULL" using 1(2) st unfolding S by simp
      then show ?thesis using 1(4) unfolding G E by simp
    next
      case 2
      then show ?thesis unfolding G E by simp
    qed
  qed
qed

lemma trashmap_has_correct:
  assumes inv: "table_inv mem m"
  shows "\<exists>n. trashmap_has_probes mem m k = Some (Inr (entries_has mem (entries m) k), n)"
proof -
  note I = table_invD [OF inv]
  let ?h = "trashmap_hash (mem k)"
  let ?start = "of_nat (unat ?h mod slot_count m) :: 32 word"
  let ?pos = "\<lambda>i. (home (slot_count m) ?h + i) mod ring (slot_count m)"
  have G: "trashmap_has_probes mem m k = trashmap_has_loop mem m k ?h ?start ?start 0"
    using I(1) by (simp add: trashmap_has_probes_def Let_def)
  have S: "has_stop mem m k ?h (?pos i) =
     (if probe_stops mem m k (?pos i)
      then Some (Inr (index (slots m ! ?pos i) \<noteq> UINT32_MAX)) else None)" for i
    by (rule has_stop_inv [OF inv pos_less(2) [OF inv]])
  note R = probe_loop_result [where L = "trashmap_has_loop mem m k ?h ?start"
        and St = "has_stop mem m k ?h" and F = "\<lambda>r n. Some (r, Suc n)"
        and sc = "slot_count m" and start = ?start
        and W = "\<lambda>n. Some (Inr False, Suc n)" and h = ?h,
        OF trashmap_has_loop_unfold I(1) refl]
  show ?thesis
  proof (cases "entries_has mem (entries m) k")
    case True
    then obtain j where j: "j < count m" "same_key mem k (entries m ! j)"
      unfolding entries_has_nth [OF inv] by blast
    have j32: "j + 1 < 2 ^ 32" using j(1) I(8) by simp
    from R show ?thesis
    proof cases
      case (1 jj r)
      have st: "probe_stops mem m k (?pos jj)"
        using 1(2) unfolding S by (simp split: if_splits)
      have before: "\<forall>i<jj. \<not> probe_stops mem m k (?pos i)"
        using 1(3) unfolding S by (auto split: if_splits)
      have sl: "slots m ! ?pos jj = item_slot mem (entries m) j"
        using inv j 1(1) st before by (rule first_stop_present)
      have "index (slots m ! ?pos jj) \<noteq> UINT32_MAX"
        unfolding sl using j32 by (rule item_slot_live)
      then have "r = Inr True"
        using 1(2) st unfolding S by simp
      then show ?thesis using 1(4) True unfolding G by simp
    next
      case 2
      then have "\<forall>i<ring (slot_count m). \<not> probe_stops mem m k (?pos i)"
        unfolding S by (auto split: if_splits)
      then show ?thesis using stop_exists_present [OF inv j] by blast
    qed
  next
    case False
    from R show ?thesis
    proof cases
      case (1 jj r)
      have st: "probe_stops mem m k (?pos jj)"
        using 1(2) unfolding S by (simp split: if_splits)
      have "index (slots m ! ?pos jj) = UINT32_MAX"
        using inv False pos_less(2) [OF inv] st by (rule first_stop_absent)
      then have "r = Inr False" using 1(2) st unfolding S by simp
      then show ?thesis using 1(4) False unfolding G by simp
    next
      case 2
      then show ?thesis using False unfolding G by simp
    qed
  qed
qed

section \<open>Insertion and update\<close>

lemma trashmap_set_loop_unfold:
  "trashmap_set_loop mem m k v h start idx =
     (case set_stop mem m k v h (unat idx) of
        Some r \<Rightarrow> Some r
      | None \<Rightarrow>
          if (of_nat (unat (idx + 1) mod slot_count m) :: 32 word) \<noteq> start
          then trashmap_set_loop mem m k v h start
                 (of_nat (unat (idx + 1) mod slot_count m))
          else Some (Inl Assert_Failed))"
  by (subst trashmap_set_loop.simps) (simp add: set_stop_def Let_def split: sum.splits)

lemma set_stop_inv:
  assumes inv: "table_inv mem m" and p: "p < slot_count m" and c: "count m < capacity m"
  shows "set_stop mem m k v (trashmap_hash (mem k)) p =
     (if probe_stops mem m k p
      then Some (Inr (if index (slots m ! p) = UINT32_MAX
        then m\<lparr>items := (items m)[count m := \<lparr>key = k, value_ref = v\<rparr>],
               slots := (slots m)[p := \<lparr>hash = trashmap_hash (mem k),
                                          index = of_nat (count m)\<rparr>],
               count := (count m + 1) mod 2 ^ 64\<rparr>
        else m\<lparr>items := (items m)[unat (index (slots m ! p)) :=
               (items m ! unat (index (slots m ! p)))\<lparr>value_ref := v\<rparr>]\<rparr>))
      else None)"
proof (cases "index (slots m ! p) = UINT32_MAX")
  case True
  then show ?thesis using p c table_invD(3,4) [OF inv]
    unfolding set_stop_def probe_stops_def by simp
next
  case False
  note K = key_matches_inv [OF inv p False]
  show ?thesis using False p table_invD(3) [OF inv]
    unfolding set_stop_def probe_stops_def K(2) by simp
qed

lemma entries_set_present:
  assumes inv: "table_inv mem m" and j: "j < count m"
    and s: "same_key mem k (entries m ! j)"
  shows "entries_set mem (entries m) k v = (entries m)[j := (entries m ! j)\<lparr>value_ref := v\<rparr>]"
proof -
  have len: "length (entries m) = count m" by (rule length_entries [OF inv])
  have has: "\<exists>it\<in>set (entries m). same_key mem k it"
    using j s len by (metis nth_mem)
  have "map (\<lambda>it. if same_key mem k it then it\<lparr>value_ref := v\<rparr> else it) (entries m) =
      (entries m)[j := (entries m ! j)\<lparr>value_ref := v\<rparr>]"
  proof (rule nth_equalityI)
    fix i assume "i < length (map (\<lambda>it. if same_key mem k it then it\<lparr>value_ref := v\<rparr> else it)
      (entries m))"
    then have i: "i < count m" using len by simp
    show "map (\<lambda>it. if same_key mem k it then it\<lparr>value_ref := v\<rparr> else it) (entries m) ! i =
      (entries m)[j := (entries m ! j)\<lparr>value_ref := v\<rparr>] ! i"
    proof (cases "i = j")
      case True
      then show ?thesis using s j len by simp
    next
      case False
      then have "\<not> same_key mem k (entries m ! i)"
        using same_key_unique [OF inv i j _ s] by blast
      then show ?thesis using False i len by simp
    qed
  qed simp
  then show ?thesis using has unfolding entries_set_def by simp
qed

lemma table_inv_update:
  assumes inv: "table_inv mem m" and j: "j < count m"
  shows "table_inv mem (m\<lparr>items := (items m)[j := (items m ! j)\<lparr>value_ref := v\<rparr>]\<rparr>)"
    and "entries (m\<lparr>items := (items m)[j := (items m ! j)\<lparr>value_ref := v\<rparr>]\<rparr>) =
      (entries m)[j := (entries m ! j)\<lparr>value_ref := v\<rparr>]"
proof -
  note I = table_invD [OF inv]
  define m' where "m' = m\<lparr>items := (items m)[j := (items m ! j)\<lparr>value_ref := v\<rparr>]\<rparr>"
  have f: "slots m' = slots m" "slot_count m' = slot_count m" "count m' = count m"
      "capacity m' = capacity m" "items m' = (items m)[j := (items m ! j)\<lparr>value_ref := v\<rparr>]"
    unfolding m'_def by simp_all
  have ent: "entries m' = (entries m)[j := (entries m ! j)\<lparr>value_ref := v\<rparr>]"
    using j I(4,6) unfolding entries_def f by (simp add: take_update_swap)
  have keys: "map key (entries m') = map key (entries m)"
    unfolding ent using j length_entries [OF inv]
    by (intro nth_equalityI) (auto simp: nth_list_update)
  have k: "key (entries m' ! i) = key (entries m ! i)" if "i < count m" for i
    using arg_cong [OF keys, of "\<lambda>xs. xs ! i"] that length_entries [OF inv]
    by (simp add: ent)
  have sl: "map (item_slot mem (entries m')) [0..<count m] =
      map (item_slot mem (entries m)) [0..<count m]"
    by (rule map_cong) (simp_all add: item_slot_def k)
  have "map (\<lambda>it. cstr (mem (key it))) (entries m') =
      map (\<lambda>it. cstr (mem (key it))) (entries m)"
    using arg_cong [OF keys, of "map (\<lambda>p. cstr (mem p))"] by (simp add: comp_def)
  then have d: "distinct (map (\<lambda>it. cstr (mem (key it))) (entries m'))"
    using I(11) by simp
  have "table_inv mem m'"
    by (rule table_invI) (use I d in \<open>simp_all add: f sl\<close>)
  then show "table_inv mem (m\<lparr>items := (items m)[j := (items m ! j)\<lparr>value_ref := v\<rparr>]\<rparr>)"
    unfolding m'_def .
  show "entries (m\<lparr>items := (items m)[j := (items m ! j)\<lparr>value_ref := v\<rparr>]\<rparr>) =
      (entries m)[j := (entries m ! j)\<lparr>value_ref := v\<rparr>]"
    using ent unfolding m'_def .
qed

lemma table_inv_insert:
  assumes inv: "table_inv mem m" and a: "\<not> entries_has mem (entries m) k"
    and cap: "count m + 1 \<le> capacity m" and load: "count m + 1 \<le> slot_count m * 3 div 4"
    and c32: "count m + 1 < 2 ^ 32"
    and jj: "jj < ring (slot_count m)"
    and p: "p = (home (slot_count m) (trashmap_hash (mem k)) + jj) mod ring (slot_count m)"
    and e: "index (slots m ! p) = UINT32_MAX"
    and before: "\<forall>i<jj. index (slots m !
        ((home (slot_count m) (trashmap_hash (mem k)) + i) mod ring (slot_count m)))
        \<noteq> UINT32_MAX"
    and m': "m' = m\<lparr>items := (items m)[count m := \<lparr>key = k, value_ref = v\<rparr>],
               slots := (slots m)[p := \<lparr>hash = trashmap_hash (mem k),
                                          index = of_nat (count m)\<rparr>],
               count := (count m + 1) mod 2 ^ 64\<rparr>"
  shows "table_inv mem m'" and "entries m' = entries m @ [\<lparr>key = k, value_ref = v\<rparr>]"
proof -
  note I = table_invD [OF inv]
  let ?s = "\<lparr>hash = trashmap_hash (mem k), index = of_nat (count m)\<rparr>"
  let ?new = "\<lparr>key = k, value_ref = v\<rparr>"
  have "count m + 1 < 2 ^ 64" using c32 by simp
  then have cm: "(count m + 1) mod 2 ^ 64 = count m + 1" by simp
  have f: "slots m' = (slots m)[p := ?s]" "slot_count m' = slot_count m"
      "capacity m' = capacity m" "items m' = (items m)[count m := ?new]"
    unfolding m' by simp_all
  have fc: "count m' = count m + 1" unfolding m' using cm by simp
  have ent: "entries m' = entries m @ [?new]"
    using cap I(4) unfolding entries_def f fc
    by (simp add: take_Suc_conv_app_nth)
  have pl: "p < length (slots m)" unfolding p by (rule pos_less(3) [OF inv])
  have sl: "index ?s \<noteq> UINT32_MAX" using c32 by (simp add: of_nat_neq_UINT32_MAX)
  have hs: "hash ?s = trashmap_hash (mem k)" by simp
  have len: "length (entries m) = count m" by (rule length_entries [OF inv])
  have isl: "item_slot mem (entries m') i = item_slot mem (entries m) i" if "i < count m" for i
    using that len unfolding ent item_slot_def by (simp add: nth_append)
  have "map (item_slot mem (entries m')) [0..<count m] =
      map (item_slot mem (entries m)) [0..<count m]"
    by (rule map_cong) (simp_all add: isl)
  moreover have "item_slot mem (entries m') (count m) = ?s"
    unfolding ent item_slot_def len [symmetric] by simp
  ultimately have A: "map (item_slot mem (entries m')) [0..<count m + 1] =
      map (item_slot mem (entries m)) [0..<count m] @ [?s]"
    by simp
  have ms: "mset (live_slots (slots m')) =
      mset (map (item_slot mem (entries m')) [0..<count m'])"
    unfolding f fc A live_slots_update_empty [OF pl e sl] I(9) by simp
  have ch: "chain_ok (slot_count m') (slots m')"
    unfolding f using I(10) I(1) jj _ _ sl
    by (rule chain_ok_insert) (simp_all add: p before)
  have "cstr (mem k) \<notin> set (map (\<lambda>it. cstr (mem (key it))) (entries m))"
    using a unfolding entries_has_def same_key_def by auto
  then have d: "distinct (map (\<lambda>it. cstr (mem (key it))) (entries m'))"
    using I(11) unfolding ent by simp
  show "table_inv mem m'"
    by (rule table_invI) (use I cap load c32 ms ch d in \<open>simp_all add: f fc\<close>)
  show "entries m' = entries m @ [?new]" by (rule ent)
qed

lemma count_less_ring:
  assumes inv: "table_inv mem m" and load: "count m + 1 \<le> slot_count m * 3 div 4"
  shows "count m < ring (slot_count m)"
proof -
  have "slot_count m * 3 div 4 \<le> slot_count m * 4 div 4"
    by (rule div_le_mono) simp
  then have "count m < slot_count m" using load by simp
  then show ?thesis using table_invD(8) [OF inv] by (simp add: ring_def)
qed

lemma stop_exists_room:
  assumes inv: "table_inv mem m" and c: "count m < ring (slot_count m)"
  shows "\<exists>i<ring (slot_count m). index (slots m !
     ((home (slot_count m) h + i) mod ring (slot_count m))) = UINT32_MAX"
proof -
  note I = table_invD [OF inv]
  let ?M = "ring (slot_count m)"
  have "size (mset (live_slots (slots m))) < ?M"
    using c length_live_slots [OF inv] by simp
  moreover have "?M \<le> length (slots m)" using ring_le [of "slot_count m"] I(3) by simp
  ultimately obtain p where p: "p < ?M" "index (slots m ! p) = UINT32_MAX"
    using empty_slot_exists by blast
  have hM: "home (slot_count m) h < ?M" using I(1) by (rule home_less_ring)
  let ?d = "(p + ?M - home (slot_count m) h) mod ?M"
  have "?d < ?M" "(home (slot_count m) h + ?d) mod ?M = p"
    using ring_dist [OF hM p(1)] by simp_all
  then show ?thesis using p(2) by metis
qed

lemma entries_set_absent:
  "\<not> entries_has mem es k \<Longrightarrow> entries_set mem es k v = es @ [\<lparr>key = k, value_ref = v\<rparr>]"
  unfolding entries_has_def entries_set_def by simp

lemma trashmap_set_correct:
  assumes inv: "table_inv mem m"
  shows "\<exists>m'. trashmap_set served mem m k v = Some (Inr m') \<and>
     (entries_has mem (entries m) k \<or> count m + 1 < 2 ^ 32 \<longrightarrow>
        table_inv mem m' \<and> entries m' = entries_set mem (entries m) k v) \<and>
     (count m + 1 \<le> capacity m \<longrightarrow> capacity m' = capacity m) \<and>
     count m' = (if entries_has mem (entries m) k then count m else count m + 1)"
proof -
  have c32: "count m < 2 ^ 32" by (rule table_invD(8) [OF inv])
  have c1: "(count m + 1) mod 2 ^ 64 = count m + 1" using c32 by simp
  have n59: "(count m + 1) mod 2 ^ 64 \<le> 2 ^ 59" unfolding c1 using c32 by simp
  from trashmap_reserve_correct [OF inv n59, unfolded c1]
  obtain m1 where m1: "trashmap_reserve served m 1 = Some (Inr m1)" "table_inv mem m1"
      "entries m1 = entries m" "count m1 = count m" "count m + 1 \<le> capacity m1"
      "count m + 1 \<le> slot_count m1 * 3 div 4"
      "count m + 1 \<le> capacity m \<longrightarrow> capacity m1 = capacity m"
    by auto
  note inv1 = m1(2)
  note I = table_invD [OF inv1]
  let ?h = "trashmap_hash (mem k)"
  let ?start = "of_nat (unat ?h mod slot_count m1) :: 32 word"
  let ?pos = "\<lambda>i. (home (slot_count m1) ?h + i) mod ring (slot_count m1)"
  let ?ins = "\<lambda>p. m1\<lparr>items := (items m1)[count m1 := \<lparr>key = k, value_ref = v\<rparr>],
               slots := (slots m1)[p := \<lparr>hash = ?h, index = of_nat (count m1)\<rparr>],
               count := (count m1 + 1) mod 2 ^ 64\<rparr>"
  let ?upd = "\<lambda>u. m1\<lparr>items := (items m1)[u := (items m1 ! u)\<lparr>value_ref := v\<rparr>]\<rparr>"
  have G: "trashmap_set served mem m k v = trashmap_set_loop mem m1 k v ?h ?start ?start"
    using I(1) unfolding trashmap_set_def m1(1) by (simp add: Let_def)
  have c: "count m1 < capacity m1" using m1(4,5) by simp
  have S: "set_stop mem m1 k v ?h (?pos i) =
     (if probe_stops mem m1 k (?pos i)
      then Some (Inr (if index (slots m1 ! ?pos i) = UINT32_MAX then ?ins (?pos i)
                      else ?upd (unat (index (slots m1 ! ?pos i)))))
      else None)" for i
    by (rule set_stop_inv [OF inv1 pos_less(2) [OF inv1] c])
  note R = probe_loop_result [where L = "\<lambda>idx n. trashmap_set_loop mem m1 k v ?h ?start idx"
        and St = "set_stop mem m1 k v ?h" and F = "\<lambda>r n. Some r"
        and sc = "slot_count m1" and start = ?start
        and W = "\<lambda>n. Some (Inl Assert_Failed)" and h = ?h,
        OF trashmap_set_loop_unfold I(1) refl]
  show ?thesis
  proof (cases "entries_has mem (entries m) k")
    case True
    then obtain j where j: "j < count m1" "same_key mem k (entries m1 ! j)"
      using entries_has_nth [OF inv1, of k] unfolding m1(3) by blast
    have j32: "j < 2 ^ 32" "j + 1 < 2 ^ 32" using j(1) I(8) by simp_all
    from R show ?thesis
    proof cases
      case (1 jj r)
      have st: "probe_stops mem m1 k (?pos jj)"
        using 1(2) unfolding S by (simp split: if_splits)
      have before: "\<forall>i<jj. \<not> probe_stops mem m1 k (?pos i)"
        using 1(3) unfolding S by (auto split: if_splits)
      have sl: "slots m1 ! ?pos jj = item_slot mem (entries m1) j"
        using inv1 j 1(1) st before by (rule first_stop_present)
      have "index (slots m1 ! ?pos jj) \<noteq> UINT32_MAX"
        unfolding sl using j32(2) by (rule item_slot_live)
      moreover have "unat (index (slots m1 ! ?pos jj)) = j"
        unfolding sl using j32(1) by (rule item_slot_index)
      ultimately have r: "r = Inr (?upd j)"
        using 1(2) st unfolding S by simp
      have "table_inv mem (?upd j)" using inv1 j(1) by (rule table_inv_update(1))
      moreover have "entries (?upd j) = entries_set mem (entries m1) k v"
        unfolding table_inv_update(2) [OF inv1 j(1)] entries_set_present [OF inv1 j] ..
      then have "entries (?upd j) = entries_set mem (entries m) k v"
        unfolding m1(3) .
      ultimately show ?thesis using 1(4) m1(7) True m1(4) unfolding G r by simp
    next
      case 2
      then have "\<forall>i<ring (slot_count m1). \<not> probe_stops mem m1 k (?pos i)"
        unfolding S by (auto split: if_splits)
      then show ?thesis using stop_exists_present [OF inv1 j] by blast
    qed
  next
    case False
    then have a: "\<not> entries_has mem (entries m1) k" unfolding m1(3) .
    have cr: "count m1 < ring (slot_count m1)"
      using inv1 by (rule count_less_ring) (use m1(4,6) in simp)
    from R show ?thesis
    proof cases
      case (1 jj r)
      have st: "probe_stops mem m1 k (?pos jj)"
        using 1(2) unfolding S by (simp split: if_splits)
      have before: "\<forall>i<jj. index (slots m1 ! ?pos i) \<noteq> UINT32_MAX"
        using 1(3) unfolding S probe_stops_def by (auto split: if_splits)
      have e: "index (slots m1 ! ?pos jj) = UINT32_MAX"
        using inv1 a pos_less(2) [OF inv1] st by (rule first_stop_absent)
      then have r: "r = Inr (?ins (?pos jj))" using 1(2) st unfolding S by simp
      have "table_inv mem (?ins (?pos jj)) \<and>
          entries (?ins (?pos jj)) = entries_set mem (entries m) k v"
        if c32: "count m + 1 < 2 ^ 32"
      proof -
        note T = table_inv_insert [OF inv1 a _ _ _ 1(1) refl e before refl, of v]
        have "table_inv mem (?ins (?pos jj))"
          by (rule T(1)) (use m1(4,5,6) c32 in simp_all)
        moreover have "entries (?ins (?pos jj)) = entries m1 @ [\<lparr>key = k, value_ref = v\<rparr>]"
          by (rule T(2)) (use m1(4,5,6) c32 in simp_all)
        ultimately show ?thesis
          unfolding entries_set_absent [OF False] m1(3) by simp
      qed
      then show ?thesis using 1(4) False m1(7) m1(4) c1 unfolding G r by simp
    next
      case 2
      then have "\<forall>i<ring (slot_count m1). index (slots m1 ! ?pos i) \<noteq> UINT32_MAX"
        unfolding S probe_stops_def by (auto split: if_splits)
      then show ?thesis using stop_exists_room [OF inv1 cr, of ?h] by blast
    qed
  qed
qed

section \<open>Initialisation, clearing, and sequences of calls\<close>

lemma trashmap_init_eq:
  assumes "0 < n" "n < 2 ^ 61"
  shows "trashmap_init served n =
     Inr \<lparr>slots = replicate n \<lparr>hash = UINT32_MAX, index = UINT32_MAX\<rparr>, items = [],
          slot_count = n, count = 0, capacity = 0\<rparr>"
  using assms(1) unfolding trashmap_init_def Let_def alloc_memset_empty [OF assms(2)]
  by simp

lemma table_inv_empty:
  assumes "0 < slot_count m" "slot_count m < 2 ^ 61" "length (items m) = capacity m"
    "capacity m < 2 ^ 60" "count m = 0"
    "slots m = replicate (slot_count m) \<lparr>hash = UINT32_MAX, index = UINT32_MAX\<rparr>"
  shows "table_inv mem m" and "entries m = []"
proof -
  show e: "entries m = []" using assms(5) by (simp add: entries_def)
  show "table_inv mem m"
    by (rule table_invI)
      (use assms e in \<open>simp_all add: live_slots_replicate_empty chain_ok_replicate_empty\<close>)
qed

lemma trashmap_init_correct:
  assumes "0 < n" "n < 2 ^ 61"
  shows "\<exists>m. trashmap_init served n = Inr m \<and> table_inv mem m \<and> entries m = [] \<and>
     slot_count m = n \<and> count m = 0 \<and> capacity m = 0"
proof -
  let ?m = "\<lparr>slots = replicate n \<lparr>hash = UINT32_MAX, index = UINT32_MAX\<rparr>, items = [],
          slot_count = n, count = 0, capacity = 0\<rparr>"
  have "table_inv mem ?m" "entries ?m = []"
    by (rule table_inv_empty; use assms in simp)+
  then show ?thesis using trashmap_init_eq [OF assms] by simp
qed

lemma trashmap_clear_eq:
  assumes "length (slots m) = slot_count m" "slot_count m < 2 ^ 61"
  shows "trashmap_clear m =
     Inr (m\<lparr>count := 0,
            slots := replicate (slot_count m) \<lparr>hash = UINT32_MAX, index = UINT32_MAX\<rparr>\<rparr>)"
proof -
  have "slot_count m * 8 < 2 ^ 64" using assms(2) by simp
  then have e: "slot_count m * 8 mod 2 ^ 64 = slot_count m * 8" by simp
  show ?thesis unfolding trashmap_clear_def e trashmap_memset_def
    using assms(1) by (simp add: fill_slot_FF)
qed

lemma trashmap_clear_correct:
  assumes inv: "table_inv mem m"
  shows "\<exists>m'. trashmap_clear m = Inr m' \<and> table_inv mem m' \<and> entries m' = []"
proof -
  note I = table_invD [OF inv]
  let ?m' = "m\<lparr>count := 0,
            slots := replicate (slot_count m) \<lparr>hash = UINT32_MAX, index = UINT32_MAX\<rparr>\<rparr>"
  have "table_inv mem ?m'" "entries ?m' = []"
    by (rule table_inv_empty; use I in simp)+
  then show ?thesis using trashmap_clear_eq [OF I(3) I(2)] by simp
qed

section \<open>Allocation failure\<close>

lemma allocation_failed_simps [simp]:
  "allocation_failed (Some (Inl Out_Of_Memory))"
  "allocation_failed (Some (Inl Null_Dereference))"
  "\<not> allocation_failed (Some (Inl Assert_Failed))"
  "\<not> allocation_failed (Some (Inl Out_Of_Bounds))"
  "\<not> allocation_failed (Some (Inl Div_By_Zero))"
  "\<not> allocation_failed (Some (Inr x))"
  "\<not> allocation_failed None"
  by (simp_all add: allocation_failed_def)

lemma reserve_items_alloc:
  "reserve_items alloc m e = reserve_items served m e \<or>
   reserve_items alloc m e = Some (Inl Out_Of_Memory)"
  by (simp add: reserve_items_def realloc_items_def split: option.splits)

lemma reserve_slots_alloc:
  "reserve_slots alloc m e = reserve_slots served m e \<or>
   allocation_failed (reserve_slots alloc m e)"
  by (simp add: reserve_slots_def Let_def alloc_slots_def memset_alloc_def)

lemma trashmap_reserve_alloc:
  "trashmap_reserve alloc m e = trashmap_reserve served m e \<or>
   allocation_failed (trashmap_reserve alloc m e)"
  using reserve_items_alloc [of alloc m e]
proof
  assume e: "reserve_items alloc m e = reserve_items served m e"
  show ?thesis
  proof (cases "reserve_items served m e")
    case None
    then show ?thesis by (simp add: trashmap_reserve_def e)
  next
    case (Some r)
    then show ?thesis
      using reserve_slots_alloc [of alloc _ e]
      by (cases r) (simp_all add: trashmap_reserve_def e)
  qed
next
  assume "reserve_items alloc m e = Some (Inl Out_Of_Memory)"
  then show ?thesis by (simp add: trashmap_reserve_def)
qed

lemma trashmap_set_alloc:
  "trashmap_set alloc mem m k v = trashmap_set served mem m k v \<or>
   allocation_failed (trashmap_set alloc mem m k v)"
  using trashmap_reserve_alloc [of alloc m 1]
proof
  assume "trashmap_reserve alloc m 1 = trashmap_reserve served m 1"
  then show ?thesis by (simp add: trashmap_set_def)
next
  assume "allocation_failed (trashmap_reserve alloc m 1)"
  then show ?thesis by (auto simp: trashmap_set_def allocation_failed_def)
qed

lemma trashmap_init_alloc:
  "trashmap_init alloc n = trashmap_init served n \<or>
   allocation_failed (Some (trashmap_init alloc n))"
  by (simp add: trashmap_init_def Let_def alloc_slots_def memset_alloc_def)

lemma apply_operation_alloc:
  "apply_operation alloc mem m x = apply_operation served mem m x \<or>
   allocation_failed (apply_operation alloc mem m x)"
  using trashmap_set_alloc [of alloc mem m] trashmap_reserve_alloc [of alloc m]
  by (cases x) simp_all

section \<open>Sequences of calls\<close>

lemma apply_operation_served:
  assumes inv: "table_inv mem m" and sz: "reserve_sized m x"
  shows "\<exists>m'. apply_operation served mem m x = Some (Inr m') \<and>
     count m' \<le> count m + 1 \<and>
     (count m' < 2 ^ 32 \<longrightarrow>
        table_inv mem m' \<and> entries m' = entries_apply mem (entries m) x)"
proof (cases x)
  case (Op_set k v)
  from trashmap_set_correct [OF inv, of k v]
  obtain m' where m': "trashmap_set served mem m k v = Some (Inr m')"
      "entries_has mem (entries m) k \<or> count m + 1 < 2 ^ 32 \<longrightarrow>
        table_inv mem m' \<and> entries m' = entries_set mem (entries m) k v"
      "count m' = (if entries_has mem (entries m) k then count m else count m + 1)"
    by blast
  have "table_inv mem m' \<and> entries m' = entries_set mem (entries m) k v"
    if "count m' < 2 ^ 32"
    using that m'(2,3) by (simp split: if_splits)
  then show ?thesis using m'(1,3) Op_set by simp
next
  case (Op_reserve extra)
  then show ?thesis using trashmap_reserve_correct [OF inv, of extra] sz by auto
next
  case Op_clear
  from trashmap_clear_correct [OF inv]
  obtain m' where m': "trashmap_clear m = Inr m'" "table_inv mem m'" "entries m' = []"
    by blast
  have "count m' = 0" using length_entries [OF m'(2)] unfolding m'(3) by simp
  then show ?thesis using m' Op_clear by simp
next
  case (Op_get k)
  then show ?thesis using trashmap_get_correct [OF inv, of k] inv
    by (auto simp: trashmap_get_def)
next
  case (Op_has k)
  then show ?thesis using trashmap_has_correct [OF inv, of k] inv
    by (auto simp: trashmap_has_def)
qed

lemma apply_operation_correct:
  assumes "table_inv mem m" "reserve_sized m x"
    "\<not> allocation_failed (apply_operation alloc mem m x)"
  shows "\<exists>m'. apply_operation alloc mem m x = Some (Inr m') \<and>
     count m' \<le> count m + 1 \<and>
     (count m' < 2 ^ 32 \<longrightarrow>
        table_inv mem m' \<and> entries m' = entries_apply mem (entries m) x)"
  using apply_operation_served [OF assms(1,2)] apply_operation_alloc [of alloc mem m x]
    assms(3) by auto

lemma run_states_head: "m \<in> set (run_states alloc mem m xs)"
  by (cases xs) simp_all

lemma run_operations_correct:
  "table_inv mem m \<Longrightarrow>
   \<forall>t\<in>set (run_states alloc mem m xs). count t < 2 ^ 32 \<Longrightarrow>
   \<forall>(t, x)\<in>set (zip (run_states alloc mem m xs) xs). reserve_sized t x \<Longrightarrow>
   \<not> allocation_failed (run_operations alloc mem m xs) \<Longrightarrow>
   \<exists>m'. run_operations alloc mem m xs = Some (Inr m') \<and> table_inv mem m' \<and>
     entries m' = entries_run mem (entries m) xs"
proof (induction xs arbitrary: m)
  case Nil
  then show ?case by (simp add: entries_run_def)
next
  case (Cons x xs)
  have sz: "reserve_sized m x" using Cons.prems(3) by simp
  have nf: "\<not> allocation_failed (apply_operation alloc mem m x)"
    using Cons.prems(4) by (auto simp: allocation_failed_def)
  from apply_operation_correct [OF Cons.prems(1) sz nf]
  obtain m1 where m1: "apply_operation alloc mem m x = Some (Inr m1)"
      "count m1 < 2 ^ 32 \<longrightarrow>
        table_inv mem m1 \<and> entries m1 = entries_apply mem (entries m) x"
    by blast
  have st: "run_states alloc mem m (x # xs) = m # run_states alloc mem m1 xs"
    by (simp add: m1(1))
  have "count m1 < 2 ^ 32"
    using Cons.prems(2) run_states_head [of m1 alloc mem xs] unfolding st by simp
  then have inv1: "table_inv mem m1"
    and e1: "entries m1 = entries_apply mem (entries m) x" using m1(2) by simp_all
  have "\<exists>m'. run_operations alloc mem m1 xs = Some (Inr m') \<and> table_inv mem m' \<and>
     entries m' = entries_run mem (entries m1) xs"
    by (rule Cons.IH [OF inv1]) (use Cons.prems(2,3,4) in \<open>simp_all add: st m1(1)\<close>)
  then show ?case by (simp add: m1(1) e1 entries_run_def)
qed

lemma init_and_run_correct:
  assumes "0 < n" "n < 2 ^ 61"
    "\<forall>t\<in>set (init_states alloc mem n xs). count t < 2 ^ 32"
    "\<forall>(t, x)\<in>set (zip (init_states alloc mem n xs) xs). reserve_sized t x"
    "\<not> allocation_failed (init_and_run alloc mem n xs)"
  shows "\<exists>m. init_and_run alloc mem n xs = Some (Inr m) \<and> table_inv mem m \<and>
     entries m = entries_run mem [] xs"
proof -
  from trashmap_init_correct [OF assms(1,2), of mem]
  obtain m0 where m0: "trashmap_init served n = Inr m0" "table_inv mem m0" "entries m0 = []"
    by blast
  have "\<not> allocation_failed (Some (trashmap_init alloc n))"
    using assms(5) by (auto simp: init_and_run_def allocation_failed_def split: sum.splits)
  then have i: "trashmap_init alloc n = Inr m0"
    using trashmap_init_alloc [of alloc n] m0(1) by simp
  have "\<exists>m'. run_operations alloc mem m0 xs = Some (Inr m') \<and> table_inv mem m' \<and>
     entries m' = entries_run mem (entries m0) xs"
    by (rule run_operations_correct [OF m0(2)])
      (use assms(3,4,5) in \<open>simp_all add: init_states_def init_and_run_def i\<close>)
  then show ?thesis unfolding init_and_run_def i m0(3) by simp
qed

section \<open>A run on concrete tables\<close>

lemma example_hash_3: "trashmap_hash (example_mem 3) = 0x3445D362"
proof -
  have "example_mem 3 = [0x61, 0x61, 0x61]"
    by (simp add: example_mem_def numeral_3_eq_3)
  then show ?thesis
    by (simp add: trashmap_hash_def FNV_1A_OFFSET_BASIS_def shift_add_def)
qed

lemma example_init: "trashmap_init example_alloc 1 = Inr (fresh_table 1)"
  by (simp add: trashmap_init_def memset_alloc_def alloc_slots_def example_alloc_def
      trashmap_memset_def fill_slot_FF fresh_table_def)

lemma example_reserve_0:
  "trashmap_reserve example_alloc (fresh_table 1) 1 =
     Some (Inr \<lparr>slots = replicate 2 \<lparr>hash = UINT32_MAX, index = UINT32_MAX\<rparr>,
                items = replicate 16 \<lparr>key = NULL, value_ref = NULL\<rparr>,
                slot_count = 2, count = 0, capacity = 16\<rparr>)"
proof -
  have l: "reserve_capacity_loop (Suc 0) 16 = Some 16"
    by (simp add: reserve_capacity_loop.simps)
  show ?thesis
    by (simp add: trashmap_reserve_def reserve_items_def reserve_slots_def fresh_table_def l
        realloc_items_def memset_alloc_def trashmap_memset_def alloc_slots_def
        example_alloc_def fill_slot_FF rehash_loop.simps UINT32_MAX_def)
qed

lemma replicate_2: "replicate 2 x = [x, x]"
  by (simp add: numeral_2_eq_2)

lemma replicate_16: "replicate 16 x = x # replicate 15 x"
  by (simp add: numeral_eq_Suc)

lemma example_set_1:
  "trashmap_set example_alloc example_mem (fresh_table 1) 2 5 = Some (Inr example_table_1)"
  unfolding trashmap_set_def example_reserve_0 replicate_2 replicate_16
  by (simp add: example_hash_2 trashmap_set_loop.simps UINT32_MAX_def example_table_1_def)

lemma replicate_4: "replicate 4 x = [x, x, x, x]"
  by (simp add: numeral_eq_Suc)

lemma replicate_15: "replicate 15 x = x # replicate 14 x"
  by (simp add: numeral_eq_Suc)

lemma example_reserve_1:
  "trashmap_reserve example_alloc example_table_1 1 = Some (Inr example_table_1r)"
  by (simp add: trashmap_reserve_def reserve_items_def reserve_slots_def example_table_1_def
      example_table_1r_def memset_alloc_def trashmap_memset_def alloc_slots_def
      example_alloc_def fill_slot_FF replicate_4 rehash_loop.simps rehash_probe.simps
      UINT32_MAX_def)

lemma example_reserve_1r:
  "trashmap_reserve example_alloc example_table_1r 1 = Some (Inr example_table_1r)"
  by (simp add: trashmap_reserve_def reserve_items_def reserve_slots_def example_table_1r_def)

lemma example_loop_2:
  "trashmap_set_loop example_mem example_table_1r 3 6 0x3445D362 2 2 =
     Some (Inr example_table_2)"
  by (simp add: trashmap_set_loop.simps example_table_1r_def example_table_2_def
      UINT32_MAX_def replicate_15)


lemma example_set_2r:
  "trashmap_set example_alloc example_mem example_table_1r 3 6 = Some (Inr example_table_2)"
  unfolding trashmap_set_def example_reserve_1r example_hash_3
  using example_loop_2 by (simp add: example_table_1r_def)

lemma example_clear_0: "trashmap_clear (fresh_table 1) = Inr (fresh_table 1)"
  by (simp add: trashmap_clear_def trashmap_memset_def fresh_table_def fill_slot_FF)

section \<open>The claims about tables\<close>

lemma table_inv_rep_invariant:
  assumes inv: "table_inv mem m"
  shows "rep_invariant m"
proof -
  note I = table_invD [OF inv]
  have a: "\<forall>s\<in>set (slots m). index s \<noteq> UINT32_MAX \<longrightarrow> unat (index s) < count m"
  proof (intro ballI impI)
    fix s assume "s \<in> set (slots m)" and l: "index s \<noteq> UINT32_MAX"
    then obtain p where p: "p < slot_count m" "slots m ! p = s"
      using I(3) by (auto simp: in_set_conv_nth)
    show "unat (index s) < count m"
      using key_matches_inv(1) [OF inv p(1)] l unfolding p(2) by simp
  qed
  have b: "\<forall>j<count m. \<exists>s\<in>set (slots m). index s \<noteq> UINT32_MAX \<and> unat (index s) = j"
  proof (intro allI impI)
    fix j assume j: "j < count m"
    from item_has_slot [OF inv j] obtain p where p: "p < slot_count m"
        "slots m ! p = item_slot mem (entries m) j" by blast
    have "slots m ! p \<in> set (slots m)" using p(1) I(3) by simp
    moreover have "index (slots m ! p) \<noteq> UINT32_MAX"
      unfolding p(2) by (rule item_slot_live) (use j I(8) in simp)
    moreover have "unat (index (slots m ! p)) = j"
      unfolding p(2) by (rule item_slot_index) (use j I(8) in simp)
    ultimately show "\<exists>s\<in>set (slots m). index s \<noteq> UINT32_MAX \<and> unat (index s) = j"
      by blast
  qed
  show ?thesis unfolding rep_invariant_def using I(3,4,6,7) a b by blast
qed

lemma trashmap_get_eq:
  "table_inv mem m \<Longrightarrow> trashmap_get mem m k = Some (Inr (entries_get mem (entries m) k))"
  using trashmap_get_correct [of mem m k] by (auto simp: trashmap_get_def)

lemma trashmap_has_eq:
  "table_inv mem m \<Longrightarrow> trashmap_has mem m k = Some (Inr (entries_has mem (entries m) k))"
  using trashmap_has_correct [of mem m k] by (auto simp: trashmap_has_def)


lemma cstr_example_mem: "cstr (example_mem p) = replicate p 0x61"
  by (simp add: cstr_def example_mem_def)

lemma cstr_example_mem_eq_iff: "cstr (example_mem p) = cstr (example_mem q) \<longleftrightarrow> p = q"
  unfolding cstr_example_mem using arg_cong [of "replicate p (0x61 :: 8 word)" _ length]
  by auto

lemma table_inv_fresh:
  assumes "0 < n" "n < 2 ^ 61"
  shows "table_inv mem (fresh_table n)" and "entries (fresh_table n) = []"
  by (rule table_inv_empty; use assms in \<open>simp add: fresh_table_def\<close>)+

lemma trashmap_init_fresh: "0 < n \<Longrightarrow> n < 2 ^ 61 \<Longrightarrow> trashmap_init served n = Inr (fresh_table n)"
  unfolding fresh_table_def by (rule trashmap_init_eq)

lemma entries_set_same_key:
  "\<forall>it\<in>set (entries_set mem es k v). same_key mem k it \<longrightarrow> value_ref it = v"
  unfolding entries_set_def same_key_def by auto

lemma entries_has_set:
  "entries_has mem (entries_set mem es k v) k' \<longleftrightarrow>
     entries_has mem es k' \<or> cstr (mem k') = cstr (mem k)"
proof (cases "\<exists>it\<in>set es. same_key mem k it")
  case True
  then have "entries_set mem es k v =
      map (\<lambda>it. if same_key mem k it then it\<lparr>value_ref := v\<rparr> else it) es"
    by (simp add: entries_set_def)
  moreover have H: "(\<exists>it\<in>set xs. same_key mem k' it) \<longleftrightarrow>
      cstr (mem k') \<in> set (map (\<lambda>it. cstr (mem (key it))) xs)" for xs
    unfolding same_key_def by force
  have "map (\<lambda>it. cstr (mem (key it)))
      (map (\<lambda>it. if same_key mem k it then it\<lparr>value_ref := v\<rparr> else it) es) =
      map (\<lambda>it. cstr (mem (key it))) es"
    by (induction es) simp_all
  then have "(\<exists>it\<in>set (map (\<lambda>it. if same_key mem k it then it\<lparr>value_ref := v\<rparr> else it) es).
      same_key mem k' it) \<longleftrightarrow> (\<exists>it\<in>set es. same_key mem k' it)"
    unfolding H by simp
  moreover have "cstr (mem k') = cstr (mem k) \<Longrightarrow> \<exists>it\<in>set es. same_key mem k' it"
    using True unfolding same_key_def by simp
  ultimately show ?thesis unfolding entries_has_def by auto
next
  case False
  then have "entries_set mem es k v = es @ [\<lparr>key = k, value_ref = v\<rparr>]"
    by (simp add: entries_set_def)
  then show ?thesis unfolding entries_has_def same_key_def by auto
qed

lemma entries_get_set: "entries_get mem (entries_set mem es k v) k = v"
proof -
  let ?es = "entries_set mem es k v"
  have "entries_has mem ?es k" unfolding entries_has_set by simp
  then have "find (same_key mem k) ?es \<noteq> None"
    unfolding find_None_iff entries_has_def by blast
  then obtain it where it: "find (same_key mem k) ?es = Some it" by blast
  then have "same_key mem k it" "it \<in> set ?es"
    unfolding find_Some_iff by auto
  then have "value_ref it = v" using entries_set_same_key [of mem es k v] by blast
  then show ?thesis unfolding entries_get_def it by simp
qed

lemma set_then_lookup:
  assumes inv: "table_inv mem m" and room: "entries_has mem (entries m) k \<or> count m + 1 < 2 ^ 32"
  shows "\<exists>m'. trashmap_set served mem m k v = Some (Inr m') \<and> table_inv mem m' \<and>
     trashmap_get mem m' k = Some (Inr v) \<and> trashmap_has mem m' k = Some (Inr True) \<and>
     (\<forall>k'. cstr (mem k') \<noteq> cstr (mem k) \<longrightarrow>
        trashmap_has mem m' k' = trashmap_has mem m k') \<and>
     (count m + 1 \<le> capacity m \<longrightarrow> capacity m' = capacity m) \<and>
     length (entries m') = length (entries_set mem (entries m) k v)"
proof -
  from trashmap_set_correct [OF inv, of k v] room
  obtain m' where m': "trashmap_set served mem m k v = Some (Inr m')" "table_inv mem m'"
      "entries m' = entries_set mem (entries m) k v"
      "count m + 1 \<le> capacity m \<longrightarrow> capacity m' = capacity m" by blast
  have "trashmap_get mem m' k = Some (Inr v)"
    unfolding trashmap_get_eq [OF m'(2)] m'(3) entries_get_set ..
  moreover have "trashmap_has mem m' k = Some (Inr True)"
    unfolding trashmap_has_eq [OF m'(2)] m'(3) entries_has_set by simp
  moreover have "trashmap_has mem m' k' = trashmap_has mem m k'"
    if "cstr (mem k') \<noteq> cstr (mem k)" for k'
    unfolding trashmap_has_eq [OF m'(2)] trashmap_has_eq [OF inv] m'(3) entries_has_set
    using that by simp
  ultimately show ?thesis using m' by auto
qed


lemma trashmap_set_served:
  "\<not> allocation_failed (trashmap_set alloc mem m k v) \<Longrightarrow>
   trashmap_set alloc mem m k v = trashmap_set served mem m k v"
  using trashmap_set_alloc [of alloc mem m k v] by blast

lemma trashmap_reserve_no_growth:
  assumes "(count m + extra) mod 2 ^ 64 \<le> capacity m"
    "(count m + extra) mod 2 ^ 64 \<le> slot_count m * 3 mod 2 ^ 64 div 4"
  shows "trashmap_reserve alloc m extra = Some (Inr m)"
  using assms by (simp add: trashmap_reserve_def reserve_items_def reserve_slots_def)

lemma trashmap_set_no_growth:
  assumes "table_inv mem m" "count m + 1 \<le> capacity m" "count m + 1 \<le> slot_count m * 3 div 4"
  shows "trashmap_set alloc mem m k v = trashmap_set served mem m k v"
proof -
  note I = table_invD [OF assms(1)]
  have c: "(count m + 1) mod 2 ^ 64 = count m + 1" using I(8) by simp
  have "slot_count m * 3 < 2 ^ 64" using I(2) by simp
  then have s: "slot_count m * 3 mod 2 ^ 64 = slot_count m * 3" by simp
  have "trashmap_reserve a m 1 = Some (Inr m)" for a
    by (rule trashmap_reserve_no_growth) (use assms(2,3) in \<open>simp_all only: c s\<close>)
  then show ?thesis unfolding trashmap_set_def by simp
qed










lemma example_table_1_inv:
  "table_inv example_mem example_table_1" "entries example_table_1 = [\<lparr>key = 2, value_ref = 5\<rparr>]"
proof -
  have inv: "table_inv example_mem (fresh_table 1)"
    and e: "entries (fresh_table 1) = []" by (rule table_inv_fresh; simp)+
  have c: "count (fresh_table 1) + 1 < 2 ^ 32" by (simp add: fresh_table_def)
  from trashmap_set_correct [OF inv, of 2 5] c
  obtain m1 where m1: "trashmap_set served example_mem (fresh_table 1) 2 5 = Some (Inr m1)"
      "table_inv example_mem m1"
      "entries m1 = entries_set example_mem (entries (fresh_table 1)) 2 5" by blast
  have "m1 = example_table_1"
    using trashmap_set_served [of example_alloc example_mem "fresh_table 1" 2 5]
    unfolding example_set_1 m1(1) by simp
  then show "table_inv example_mem example_table_1"
    "entries example_table_1 = [\<lparr>key = 2, value_ref = 5\<rparr>]"
    using m1(2,3) unfolding e by (simp_all add: entries_set_def)
qed

lemma example_table_1_has: "trashmap_has example_mem example_table_1 2 = Some (Inr True)"
  unfolding trashmap_has_eq [OF example_table_1_inv(1)] example_table_1_inv(2)
  by (simp add: entries_has_def same_key_def)

lemma example_update:
  "\<exists>m'. trashmap_set example_alloc example_mem example_table_1 2 6 = Some (Inr m')"
  unfolding trashmap_set_def example_reserve_1 example_hash_2
  by (simp add: example_table_1r_def trashmap_set_loop.simps key_matches_def
      trashmap_strcmp_refl UINT32_MAX_def)

text \<open>
  C2. On a table that satisfies the invariant and holds the key of \<open>k\<close>,
  \<^verbatim>\<open>trashmap_set\<close>, when its allocations do not fail, leaves \<open>count\<close> as it is and
  changes one entry of the arena, the one with that key, in its value only: its key
  pointer stays the one stored first, the other entries stay as they are, and
  \<^verbatim>\<open>trashmap_get\<close> then returns the new value.
\<close>

theorem set_updates_in_place:
  assumes "table_inv mem m" "trashmap_has mem m k = Some (Inr True)"
    "\<not> allocation_failed (trashmap_set alloc mem m k v2)"
  shows "\<exists>m' j. trashmap_set alloc mem m k v2 = Some (Inr m') \<and> count m' = count m \<and>
     j < count m \<and> cstr (mem (key (entries m ! j))) = cstr (mem k) \<and>
     entries m' = (entries m)[j := \<lparr>key = key (entries m ! j), value_ref = v2\<rparr>] \<and>
     trashmap_get mem m' k = Some (Inr v2)"
proof -
  have has: "entries_has mem (entries m) k"
    using assms(2) unfolding trashmap_has_eq [OF assms(1)] by simp
  then obtain j where j: "j < count m" "same_key mem k (entries m ! j)"
    unfolding entries_has_nth [OF assms(1)] by blast
  from trashmap_set_correct [OF assms(1), of k v2] has
  obtain m' where m': "trashmap_set alloc mem m k v2 = Some (Inr m')" "table_inv mem m'"
      "entries m' = entries_set mem (entries m) k v2"
    unfolding trashmap_set_served [OF assms(3)] by blast
  have e: "entries m' = (entries m)[j := (entries m ! j)\<lparr>value_ref := v2\<rparr>]"
    unfolding m'(3) by (rule entries_set_present [OF assms(1) j])
  have X: "(entries m ! j)\<lparr>value_ref := v2\<rparr> = \<lparr>key = key (entries m ! j), value_ref = v2\<rparr>"
    by (cases "entries m ! j") simp
  have e2: "entries m' = (entries m)[j := \<lparr>key = key (entries m ! j), value_ref = v2\<rparr>]"
    unfolding e X ..
  have "length (entries m') = length (entries m)" unfolding e by simp
  then have c: "count m' = count m"
    unfolding length_entries [OF assms(1)] length_entries [OF m'(2)] .
  have jl: "j < length (entries m)" using j(1) length_entries [OF assms(1)] by simp
  have s': "same_key mem k (entries m' ! j)"
    using j(2) jl unfolding e2 same_key_def by simp
  have "entries_get mem (entries m') k = value_ref (entries m' ! j)"
    by (rule entries_get_present [OF m'(2) _ s']) (use j(1) c in simp)
  also have "\<dots> = v2" using jl unfolding e2 by simp
  finally have "trashmap_get mem m' k = Some (Inr v2)"
    unfolding trashmap_get_eq [OF m'(2)] by simp
  then show ?thesis using m'(1) c j e2 unfolding same_key_def by blast
qed


theorem set_updates_in_place_witness:
  "\<exists>m'. trashmap_set example_alloc example_mem example_table_1 2 6 = Some (Inr m') \<and>
     count m' = count example_table_1 \<and>
     entries m' = [\<lparr>key = 2, value_ref = 6\<rparr>] \<and>
     trashmap_get example_mem m' 2 = Some (Inr 6)"
proof -
  have nf: "\<not> allocation_failed (trashmap_set example_alloc example_mem example_table_1 2 6)"
    using example_update by auto
  from set_updates_in_place [OF example_table_1_inv(1) example_table_1_has nf]
  show ?thesis unfolding example_table_1_inv(2)
    by (auto simp: example_table_1_def)
qed

lemma example_table_1_get: "trashmap_get example_mem example_table_1 2 = Some (Inr 5)"
  unfolding trashmap_get_eq [OF example_table_1_inv(1)] example_table_1_inv(2)
  by (simp add: entries_get_def same_key_def)

lemma example_table_1r_inv:
  "table_inv example_mem example_table_1r" "entries example_table_1r = [\<lparr>key = 2, value_ref = 5\<rparr>]"
proof -
  have "(count example_table_1 + 1) mod 2 ^ 64 \<le> 2 ^ 59"
    by (simp add: example_table_1_def)
  from trashmap_reserve_correct [OF example_table_1_inv(1) this]
  obtain m1 where m1: "trashmap_reserve served example_table_1 1 = Some (Inr m1)"
      "table_inv example_mem m1" "entries m1 = entries example_table_1" by blast
  have "m1 = example_table_1r"
    using trashmap_reserve_alloc [of example_alloc example_table_1 1]
    unfolding example_reserve_1 m1(1) by simp
  then show "table_inv example_mem example_table_1r"
    "entries example_table_1r = [\<lparr>key = 2, value_ref = 5\<rparr>]"
    using m1(2,3) unfolding example_table_1_inv(2) by simp_all
qed

lemma example_table_1r_has: "trashmap_has example_mem example_table_1r 3 = Some (Inr False)"
  unfolding trashmap_has_eq [OF example_table_1r_inv(1)] example_table_1r_inv(2)
  by (simp add: entries_has_def same_key_def cstr_example_mem_eq_iff)

lemma example_run_3:
  "init_and_run example_alloc example_mem 1
     [Op_clear, Op_set 2 5, Op_get 2, Op_reserve 1, Op_has 3, Op_set 3 6] =
   Some (Inr example_table_2)"
  unfolding init_and_run_def example_init
  by (simp only: sum.case option.case run_operations.simps apply_operation.simps
      example_clear_0 example_set_1 example_table_1_get example_reserve_1
      example_table_1r_has example_set_2r)

lemma example_states_3:
  "init_states example_alloc example_mem 1
     [Op_clear, Op_set 2 5, Op_get 2, Op_reserve 1, Op_has 3, Op_set 3 6] =
   [fresh_table 1, fresh_table 1, example_table_1, example_table_1, example_table_1r,
    example_table_1r, example_table_2]"
  unfolding init_states_def example_init
  by (simp only: sum.case option.case run_states.simps apply_operation.simps
      example_clear_0 example_set_1 example_table_1_get example_reserve_1
      example_table_1r_has example_set_2r)

text \<open>
  C3. On a fresh table whose slot array fits the address space, after any sequence of
  calls of \<^verbatim>\<open>trashmap_set\<close>, \<^verbatim>\<open>trashmap_reserve\<close>, \<^verbatim>\<open>trashmap_clear\<close>,
  \<^verbatim>\<open>trashmap_get\<close> and \<^verbatim>\<open>trashmap_has\<close> in which no table reaches \<open>2 ^ 32\<close>
  entries, every \<^verbatim>\<open>trashmap_reserve\<close> reserves for at most \<open>2 ^ 59\<close> items and no
  allocation has failed, every call has returned, the representation invariant
  holds, and the arena holds the entries in the order of their insertion.
\<close>

theorem invariant_after_operations:
  assumes "1 \<le> n" "n < 2 ^ 61"
    "\<forall>t\<in>set (init_states alloc mem n xs). count t < 2 ^ 32"
    "\<forall>(t, x)\<in>set (zip (init_states alloc mem n xs) xs). reserve_sized t x"
    "\<not> allocation_failed (init_and_run alloc mem n xs)"
  shows "\<exists>m. init_and_run alloc mem n xs = Some (Inr m) \<and> rep_invariant m \<and>
     entries m = entries_run mem [] xs"
proof -
  have "0 < n" using assms(1) by simp
  from init_and_run_correct [OF this assms(2-5)]
  obtain m where "init_and_run alloc mem n xs = Some (Inr m)" "table_inv mem m"
      "entries m = entries_run mem [] xs" by blast
  then show ?thesis using table_inv_rep_invariant [of mem m] by blast
qed

theorem invariant_after_operations_witness:
  "init_and_run example_alloc example_mem 1
     [Op_clear, Op_set 2 5, Op_get 2, Op_reserve 1, Op_has 3, Op_set 3 6] =
     Some (Inr example_table_2) \<and>
   rep_invariant example_table_2 \<and>
   entries example_table_2 = [\<lparr>key = 2, value_ref = 5\<rparr>, \<lparr>key = 3, value_ref = 6\<rparr>]"
proof -
  let ?xs = "[Op_clear, Op_set 2 5, Op_get 2, Op_reserve 1, Op_has 3, Op_set 3 6]"
  have p: "(1 :: nat) \<le> 1" "(1 :: nat) < 2 ^ 61" by simp_all
  have c: "\<forall>t\<in>set (init_states example_alloc example_mem 1 ?xs). count t < 2 ^ 32"
    unfolding example_states_3
    by (simp add: fresh_table_def example_table_1_def example_table_1r_def
        example_table_2_def)
  have r: "\<forall>(t, x)\<in>set (zip (init_states example_alloc example_mem 1 ?xs) ?xs).
      reserve_sized t x"
    unfolding example_states_3 by (simp add: example_table_1_def)
  have nf: "\<not> allocation_failed (init_and_run example_alloc example_mem 1 ?xs)"
    unfolding example_run_3 by simp
  have e: "entries_run example_mem [] ?xs =
      [\<lparr>key = 2, value_ref = 5\<rparr>, \<lparr>key = 3, value_ref = 6\<rparr>]"
    by (simp add: entries_run_def entries_set_def same_key_def cstr_example_mem_eq_iff)
  from invariant_after_operations [OF p c r nf]
  show ?thesis unfolding example_run_3 e by auto
qed

lemma example_init_4: "trashmap_init example_alloc 4 = Inr (fresh_table 4)"
  by (simp add: trashmap_init_def memset_alloc_def alloc_slots_def example_alloc_def
      trashmap_memset_def fill_slot_FF fresh_table_def)

text \<open>
  C3, with a \<^verbatim>\<open>trashmap_reserve\<close> for \<open>2 ^ 59 + 1\<close> items: the capacity loop stops at
  \<open>2 ^ 60\<close>, whose byte length is 0 modulo \<open>2 ^ 64\<close>, so the arena has no cell, and the
  next \<^verbatim>\<open>trashmap_set\<close> writes its item outside the arena.
\<close>

theorem invariant_oversized_reserve_counterexample:
  "init_and_run example_alloc example_mem 4 [Op_reserve (2 ^ 59 + 1), Op_set 2 5] =
     Some (Inl Out_Of_Bounds)"
proof -
  let ?m = "\<lparr>slots = replicate 8 \<lparr>hash = UINT32_MAX, index = UINT32_MAX\<rparr>, items = [],
        slot_count = 8, count = 0, capacity = 1152921504606846976\<rparr>"
  have l: "reserve_capacity_loop 576460752303423489 16 = Some 1152921504606846976"
    by (simp add: reserve_capacity_loop.simps)
  have r: "trashmap_reserve example_alloc (fresh_table 4) 576460752303423489 = Some (Inr ?m)"
    by (simp add: trashmap_reserve_def reserve_items_def reserve_slots_def fresh_table_def l
        realloc_items_def memset_alloc_def trashmap_memset_def alloc_slots_def
        example_alloc_def fill_slot_FF rehash_loop.simps UINT32_MAX_def)
  have r2: "trashmap_reserve example_alloc ?m 1 = Some (Inr ?m)"
    by (simp add: trashmap_reserve_def reserve_items_def reserve_slots_def)
  have s: "trashmap_set example_alloc example_mem ?m 2 5 = Some (Inl Out_Of_Bounds)"
    unfolding trashmap_set_def r2
    by (simp add: example_hash_2 trashmap_set_loop.simps)
  show ?thesis unfolding init_and_run_def example_init_4 by (simp add: r s)
qed

text \<open>
  C5. \<^verbatim>\<open>trashmap_reserve\<close> grows the arena by repeated doubling, but doubles the
  slot table once: on a fresh table of 4 slots, reserving for 10 items leaves 8 slots,
  whose load-factor ceiling is 6.
\<close>

theorem reserve_doubles_slots_once:
  "trashmap_init example_alloc 4 = Inr (fresh_table 4) \<and>
   trashmap_reserve example_alloc (fresh_table 4) 10 =
     Some (Inr \<lparr>slots = replicate 8 \<lparr>hash = UINT32_MAX, index = UINT32_MAX\<rparr>,
                items = replicate 16 \<lparr>key = NULL, value_ref = NULL\<rparr>,
                slot_count = 8, count = 0, capacity = 16\<rparr>) \<and>
   \<not> (0 + 10 \<le> (8 :: nat) * 3 div 4) \<and> 0 + 10 \<le> (16 :: nat)"
proof -
  have l: "reserve_capacity_loop 10 16 = Some 16"
    by (simp add: reserve_capacity_loop.simps)
  have r: "trashmap_reserve example_alloc (fresh_table 4) 10 =
     Some (Inr \<lparr>slots = replicate 8 \<lparr>hash = UINT32_MAX, index = UINT32_MAX\<rparr>,
                items = replicate 16 \<lparr>key = NULL, value_ref = NULL\<rparr>,
                slot_count = 8, count = 0, capacity = 16\<rparr>)"
    by (simp add: trashmap_reserve_def reserve_items_def reserve_slots_def fresh_table_def l
        realloc_items_def memset_alloc_def trashmap_memset_def alloc_slots_def
        example_alloc_def fill_slot_FF rehash_loop.simps UINT32_MAX_def)
  show ?thesis using example_init_4 r by simp
qed

text \<open>
  C8. On a table that satisfies the invariant, \<^verbatim>\<open>trashmap_clear\<close> sets \<open>count\<close> to 0
  and every slot to the empty slot, and leaves \<open>slot_count\<close>, \<open>capacity\<close> and the item
  array as they are. Afterwards \<^verbatim>\<open>trashmap_has\<close> is false for every key, and a
  \<^verbatim>\<open>trashmap_set\<close> stores its pair as the only entry, found by \<^verbatim>\<open>trashmap_get\<close>
  and \<^verbatim>\<open>trashmap_has\<close>: in the retained arrays, without an allocation, when they
  have room for an item, and otherwise when its allocations do not fail.
\<close>

theorem clear_retains_allocations:
  assumes "table_inv mem m"
  shows "\<exists>m'. trashmap_clear m = Inr m' \<and> count m' = 0 \<and>
     slots m' = replicate (slot_count m) \<lparr>hash = UINT32_MAX, index = UINT32_MAX\<rparr> \<and>
     slot_count m' = slot_count m \<and> capacity m' = capacity m \<and> items m' = items m \<and>
     (\<forall>k. trashmap_has mem m' k = Some (Inr False)) \<and>
     (\<forall>k v. 1 \<le> capacity m \<and> 2 \<le> slot_count m \<or>
          \<not> allocation_failed (trashmap_set alloc mem m' k v) \<longrightarrow>
        (\<exists>m''. trashmap_set alloc mem m' k v = Some (Inr m'') \<and>
           trashmap_get mem m'' k = Some (Inr v) \<and>
           trashmap_has mem m'' k = Some (Inr True) \<and>
           count m'' = 1 \<and> (1 \<le> capacity m \<longrightarrow> capacity m'' = capacity m)))"
proof -
  note I = table_invD [OF assms]
  define m' where "m' = m\<lparr>count := 0,
      slots := replicate (slot_count m) \<lparr>hash = UINT32_MAX, index = UINT32_MAX\<rparr>\<rparr>"
  have c: "trashmap_clear m = Inr m'"
    unfolding m'_def by (rule trashmap_clear_eq [OF I(3) I(2)])
  have f: "count m' = 0"
      "slots m' = replicate (slot_count m) \<lparr>hash = UINT32_MAX, index = UINT32_MAX\<rparr>"
      "slot_count m' = slot_count m" "capacity m' = capacity m" "items m' = items m"
    unfolding m'_def by simp_all
  have inv': "table_inv mem m'" and e: "entries m' = []"
    by (rule table_inv_empty; use I f in simp)+
  have h: "trashmap_has mem m' k = Some (Inr False)" for k
    unfolding trashmap_has_eq [OF inv'] e by (simp add: entries_has_def)
  have s: "\<exists>m''. trashmap_set alloc mem m' k v = Some (Inr m'') \<and>
        trashmap_get mem m'' k = Some (Inr v) \<and> trashmap_has mem m'' k = Some (Inr True) \<and>
        count m'' = 1 \<and> (1 \<le> capacity m \<longrightarrow> capacity m'' = capacity m)"
    if p: "1 \<le> capacity m \<and> 2 \<le> slot_count m \<or>
        \<not> allocation_failed (trashmap_set alloc mem m' k v)" for k v
  proof -
    have sv: "trashmap_set alloc mem m' k v = trashmap_set served mem m' k v"
    proof (cases "1 \<le> capacity m \<and> 2 \<le> slot_count m")
      case True
      then have "4 \<le> slot_count m * 3" by simp
      then have "1 \<le> slot_count m * 3 div 4"
        by (subst less_eq_div_iff_mult_less_eq) simp_all
      then show ?thesis
        using True by (intro trashmap_set_no_growth [OF inv']) (simp_all add: f)
    next
      case False
      then have "\<not> allocation_failed (trashmap_set alloc mem m' k v)" using p by blast
      then show ?thesis by (rule trashmap_set_served)
    qed
    have "entries_has mem (entries m') k \<or> count m' + 1 < 2 ^ 32" using f(1) by simp
    from set_then_lookup [OF inv' this, of v]
    obtain m'' where m'': "trashmap_set served mem m' k v = Some (Inr m'')" "table_inv mem m''"
        "trashmap_get mem m'' k = Some (Inr v)" "trashmap_has mem m'' k = Some (Inr True)"
        "count m' + 1 \<le> capacity m' \<longrightarrow> capacity m'' = capacity m'"
        "length (entries m'') = length (entries_set mem (entries m') k v)" by blast
    have "count m'' = 1"
      using m''(6) unfolding length_entries [OF m''(2)] e by (simp add: entries_set_def)
    then show ?thesis using m'' f unfolding sv by auto
  qed
  show ?thesis using c f h s by blast
qed

theorem clear_retains_allocations_witness:
  "\<exists>m' m''. trashmap_clear example_table_1 = Inr m' \<and> count m' = 0 \<and>
     capacity m' = 16 \<and> items m' = items example_table_1 \<and>
     trashmap_has example_mem m' 2 = Some (Inr False) \<and>
     trashmap_set example_alloc example_mem m' 3 7 = Some (Inr m'') \<and>
     trashmap_get example_mem m'' 3 = Some (Inr 7) \<and> count m'' = 1 \<and> capacity m'' = 16"
proof -
  have p: "1 \<le> capacity example_table_1 \<and> 2 \<le> slot_count example_table_1"
    "capacity example_table_1 = 16"
    by (simp_all add: example_table_1_def)
  from clear_retains_allocations [OF example_table_1_inv(1), of example_alloc] p
  show ?thesis by metis
qed

text \<open>
  C10. A key stored with the value \<^verbatim>\<open>NULL\<close> and a key that is not in the table get
  the same answer \<^verbatim>\<open>NULL\<close> from \<^verbatim>\<open>trashmap_get\<close>, while \<^verbatim>\<open>trashmap_has\<close>
  tells them apart.
\<close>

theorem null_value_like_absent_key:
  assumes "table_inv mem m" "count m + 1 < 2 ^ 32"
    "trashmap_has mem m k' = Some (Inr False)" "cstr (mem k') \<noteq> cstr (mem k)"
    "\<not> allocation_failed (trashmap_set alloc mem m k NULL)"
  shows "\<exists>m'. trashmap_set alloc mem m k NULL = Some (Inr m') \<and>
     trashmap_get mem m' k = Some (Inr NULL) \<and> trashmap_has mem m' k = Some (Inr True) \<and>
     trashmap_get mem m' k' = Some (Inr NULL) \<and> trashmap_has mem m' k' = Some (Inr False)"
proof -
  have "entries_has mem (entries m) k \<or> count m + 1 < 2 ^ 32" using assms(2) by simp
  from set_then_lookup [OF assms(1) this, of NULL]
  obtain m' where m': "trashmap_set alloc mem m k NULL = Some (Inr m')" "table_inv mem m'"
      "trashmap_get mem m' k = Some (Inr NULL)" "trashmap_has mem m' k = Some (Inr True)"
      "\<forall>k'. cstr (mem k') \<noteq> cstr (mem k) \<longrightarrow> trashmap_has mem m' k' = trashmap_has mem m k'"
    unfolding trashmap_set_served [OF assms(5)] by blast
  have h: "trashmap_has mem m' k' = Some (Inr False)" using m'(5) assms(3,4) by simp
  then have "\<not> entries_has mem (entries m') k'"
    unfolding trashmap_has_eq [OF m'(2)] by simp
  then have "trashmap_get mem m' k' = Some (Inr NULL)"
    unfolding trashmap_get_eq [OF m'(2)] by (simp add: entries_get_absent)
  then show ?thesis using m' h by blast
qed


lemma example_insert_3:
  "\<exists>m'. trashmap_set example_alloc example_mem example_table_1 3 v = Some (Inr m')"
  unfolding trashmap_set_def example_reserve_1 example_hash_3
  by (simp add: example_table_1r_def trashmap_set_loop.simps UINT32_MAX_def)

theorem null_value_like_absent_key_witness:
  "\<exists>m'. trashmap_set example_alloc example_mem example_table_1 3 NULL = Some (Inr m') \<and>
     trashmap_get example_mem m' 3 = Some (Inr NULL) \<and>
     trashmap_has example_mem m' 3 = Some (Inr True) \<and>
     trashmap_get example_mem m' 4 = Some (Inr NULL) \<and>
     trashmap_has example_mem m' 4 = Some (Inr False)"
proof -
  have c: "count example_table_1 + 1 < 2 ^ 32" by (simp add: example_table_1_def)
  have h: "trashmap_has example_mem example_table_1 4 = Some (Inr False)"
    unfolding trashmap_has_eq [OF example_table_1_inv(1)] example_table_1_inv(2)
    by (simp add: entries_has_def same_key_def cstr_example_mem_eq_iff)
  have d: "cstr (example_mem 4) \<noteq> cstr (example_mem 3)"
    by (simp add: cstr_example_mem_eq_iff)
  have nf: "\<not> allocation_failed
      (trashmap_set example_alloc example_mem example_table_1 3 NULL)"
    using example_insert_3 [of NULL] by auto
  from null_value_like_absent_key [OF example_table_1_inv(1) c h d nf] show ?thesis .
qed

section \<open>The slot table for every slot count\<close>

lemma bytes_div_8: "(n * 8 mod 2 ^ 64) div 8 = (n :: nat) mod 2 ^ 61"
proof -
  have "n * 8 mod 2 ^ 64 = 8 * (n mod 2 ^ 61)"
    by (simp add: mult_mod_right mult.commute)
  then show ?thesis by simp
qed

lemma memset_alloc_result:
  assumes "memset_alloc (alloc_slots alloc len) 0xFF len = Inr (Some s)"
  shows "s = replicate (len div 8) \<lparr>hash = UINT32_MAX, index = UINT32_MAX\<rparr>"
  using assms
  by (auto simp: memset_alloc_def alloc_slots_def trashmap_memset_def fill_slot_FF
      split: if_splits)

lemma length_filter_update_le:
  "length (filter P (xs[p := x])) \<le> length (filter P xs) + 1"
proof (cases "p < length xs")
  case True
  have "xs[p := x] = take p xs @ x # drop (Suc p) xs"
    using True by (rule upd_conv_take_nth_drop)
  moreover have "xs = take p xs @ xs ! p # drop (Suc p) xs"
    using True by (rule id_take_nth_drop)
  then have "length (filter P xs) =
      length (filter P (take p xs)) + length (filter P (xs ! p # drop (Suc p) xs))"
    by (metis filter_append length_append)
  ultimately show ?thesis by simp
next
  case False
  then show ?thesis by (simp add: list_update_beyond)
qed

lemma length_filter_update_same:
  assumes "\<not> P x"
  shows "length (filter P (xs[p := x])) \<le> length (filter P xs)"
proof (cases "p < length xs")
  case True
  have "xs[p := x] = take p xs @ x # drop (Suc p) xs"
    using True by (rule upd_conv_take_nth_drop)
  moreover have "xs = take p xs @ xs ! p # drop (Suc p) xs"
    using True by (rule id_take_nth_drop)
  then have "length (filter P xs) =
      length (filter P (take p xs)) + length (filter P (xs ! p # drop (Suc p) xs))"
    by (metis filter_append length_append)
  ultimately show ?thesis using assms by simp
next
  case False
  then show ?thesis by (simp add: list_update_beyond)
qed

lemma rehash_probe_result:
  fixes h :: "32 word"
  assumes nsc: "0 < nsc"
  shows "\<exists>r. rehash_probe ns nsc s (of_nat (unat h mod nsc)) (of_nat (unat h mod nsc)) = Some r \<and>
     (r = Inl Out_Of_Bounds \<or>
      (\<exists>ns'. r = Inr ns' \<and> length ns' = length ns \<and>
         length (live_slots ns') \<le> length (live_slots ns) + 1))"
proof -
  let ?start = "of_nat (unat h mod nsc) :: 32 word"
  note R = probe_loop_result [where L = "\<lambda>idx n. rehash_probe ns nsc s ?start idx"
        and St = "rehash_stop ns s" and F = "\<lambda>r n. Some r"
        and sc = nsc and start = ?start
        and W = "\<lambda>n. Some (Inr ns)" and h = h,
        OF rehash_probe_unfold nsc refl]
  have S: "x = Inl Out_Of_Bounds \<or>
     (\<exists>ns'. x = Inr ns' \<and> length ns' = length ns \<and>
        length (live_slots ns') \<le> length (live_slots ns) + 1)"
    if "rehash_stop ns s p = Some x" for p x
    using that length_filter_update_le [of "\<lambda>s. index s \<noteq> UINT32_MAX" ns p s]
    by (auto simp: rehash_stop_def live_slots_def split: if_splits)
  from R show ?thesis
  proof cases
    case (1 j x)
    then show ?thesis using S by auto
  next
    case 2
    then show ?thesis by auto
  qed
qed

text \<open>
  The rehash returns for every table: it ends with the new slot array or by an access
  outside an array (or a remainder by zero), and it occupies no more slots of the new
  array than the old array has occupied slots.
\<close>

lemma rehash_loop_result:
  "i \<le> slot_count m \<Longrightarrow>
   \<exists>r. rehash_loop m nsc ns i = Some r \<and>
     r \<noteq> Inl Assert_Failed \<and> r \<noteq> Inl Out_Of_Memory \<and> r \<noteq> Inl Null_Dereference \<and>
     (\<forall>ns'. r = Inr ns' \<longrightarrow>
        length ns' = length ns \<and>
        length (live_slots ns') \<le>
          length (live_slots ns) + length (live_slots (drop i (slots m))) \<and>
        (i < slot_count m \<longrightarrow> slot_count m \<le> length (slots m)))"
proof (induction "slot_count m - i" arbitrary: i ns)
  case 0
  then have "i = slot_count m" by simp
  then show ?case by (subst rehash_loop.simps) auto
next
  case (Suc d)
  then have i: "i < slot_count m" by simp
  have d: "d = slot_count m - (i + 1)" using Suc(2) by simp
  have i1: "i + 1 \<le> slot_count m" using i by simp
  show ?case
  proof (cases "length (slots m) \<le> i")
    case True
    then show ?thesis using i by (subst rehash_loop.simps) auto
  next
    case il: False
    then have dr: "drop i (slots m) = slots m ! i # drop (i + 1) (slots m)"
      by (simp add: Cons_nth_drop_Suc)
    show ?thesis
    proof (cases "index (slots m ! i) = UINT32_MAX")
      case True
      have E: "rehash_loop m nsc ns i = rehash_loop m nsc ns (i + 1)"
        using i il True by (subst rehash_loop.simps) simp
      from Suc(1) [OF d i1, of ns] show ?thesis
        unfolding E using True il i unfolding dr by (auto simp: live_slots_def)
    next
      case live: False
      show ?thesis
      proof (cases "nsc = 0")
        case True
        then show ?thesis using i il live by (subst rehash_loop.simps) auto
      next
        case False
        then have nsc: "0 < nsc" by simp
        let ?s = "slots m ! i"
        let ?start = "of_nat (unat (hash ?s) mod nsc) :: 32 word"
        have E: "rehash_loop m nsc ns i =
            (case rehash_probe ns nsc ?s ?start ?start of
                      None \<Rightarrow> None
                    | Some (Inl e) \<Rightarrow> Some (Inl e)
                    | Some (Inr new_slots') \<Rightarrow> rehash_loop m nsc new_slots' (i + 1))"
          using i il live False by (subst rehash_loop.simps) (simp add: Let_def)
        from rehash_probe_result [OF nsc, of ns ?s "hash ?s"]
        obtain x where x: "rehash_probe ns nsc ?s ?start ?start = Some x"
          and xr: "x = Inl Out_Of_Bounds \<or>
            (\<exists>ns'. x = Inr ns' \<and> length ns' = length ns \<and>
               length (live_slots ns') \<le> length (live_slots ns) + 1)"
          by blast
        from xr show ?thesis
        proof
          assume "x = Inl Out_Of_Bounds"
          then show ?thesis unfolding E x by simp
        next
          assume "\<exists>ns'. x = Inr ns' \<and> length ns' = length ns \<and>
            length (live_slots ns') \<le> length (live_slots ns) + 1"
          then obtain ns1 where ns1: "x = Inr ns1" "length ns1 = length ns"
              "length (live_slots ns1) \<le> length (live_slots ns) + 1" by blast
          have E1: "rehash_loop m nsc ns i = rehash_loop m nsc ns1 (i + 1)"
            unfolding E x ns1(1) by simp
          from Suc(1) [OF d i1, of ns1] show ?thesis
            unfolding E1 using ns1(2,3) live il i unfolding dr by (auto simp: live_slots_def)
        qed
      qed
    qed
  qed
qed

lemma load_inv_cong:
  "slots m' = slots m \<Longrightarrow> slot_count m' = slot_count m \<Longrightarrow> count m' = count m \<Longrightarrow>
   length (items m') = length (items m) \<Longrightarrow> load_inv m' = load_inv m"
  by (simp add: load_inv_def)

lemma reserve_capacity_loop_returns:
  "0 < cap \<Longrightarrow> need < 2 ^ 63 \<Longrightarrow> \<exists>c. reserve_capacity_loop need cap = Some c"
proof (induction "need - cap" arbitrary: cap rule: less_induct)
  case less
  show ?case
  proof (cases "need > cap")
    case True
    then have "cap * 2 < 2 ^ 64" using less(3) by simp
    then have m: "cap * 2 mod 2 ^ 64 = cap * 2" by simp
    have "\<exists>c. reserve_capacity_loop need (cap * 2) = Some c"
      by (rule less(1)) (use less(2,3) True in simp_all)
    then show ?thesis using True m by (subst reserve_capacity_loop.simps) simp
  next
    case False
    then show ?thesis by (subst reserve_capacity_loop.simps) simp
  qed
qed

lemma realloc_items_length:
  assumes "realloc_items alloc its len = Some its'" "len < 2 ^ 64"
  shows "length its' < 2 ^ 60"
proof -
  have "len div 16 < 2 ^ 60" using assms(2) by simp
  moreover have "length its' = len div 16"
    using assms(1) by (auto simp: realloc_items_def split: if_splits)
  ultimately show ?thesis by simp
qed

lemma reserve_items_result:
  assumes "reserve_items alloc m e = Some r"
  shows "r = Inl Out_Of_Memory \<or>
   (\<exists>m'. r = Inr m' \<and> slots m' = slots m \<and> slot_count m' = slot_count m \<and>
      count m' = count m \<and> (length (items m) < 2 ^ 60 \<longrightarrow> length (items m') < 2 ^ 60))"
proof (cases "(count m + e) mod 2 ^ 64 > capacity m")
  case False
  then show ?thesis using assms by (auto simp: reserve_items_def)
next
  case True
  then obtain c where c: "reserve_capacity_loop ((count m + e) mod 2 ^ 64)
      (if capacity m = 0 then 16 else capacity m) = Some c"
    using assms by (auto simp: reserve_items_def split: option.splits)
  show ?thesis
  proof (cases "realloc_items alloc (items m) (c * 16 mod 2 ^ 64)")
    case None
    then show ?thesis using assms True c by (simp add: reserve_items_def)
  next
    case (Some its)
    have "length its < 2 ^ 60" by (rule realloc_items_length [OF Some]) simp
    moreover have "r = Inr (m\<lparr>capacity := c, items := its\<rparr>)"
      using assms True c Some by (simp add: reserve_items_def)
    ultimately show ?thesis by simp
  qed
qed

lemma reserve_items_returns:
  assumes "(count m + e) mod 2 ^ 64 < 2 ^ 63"
  shows "\<exists>r. reserve_items alloc m e = Some r"
proof -
  have "0 < (if capacity m = 0 then 16 else capacity m)" by simp
  from reserve_capacity_loop_returns [OF this assms]
  obtain c where "reserve_capacity_loop ((count m + e) mod 2 ^ 64)
      (if capacity m = 0 then 16 else capacity m) = Some c" by blast
  then show ?thesis by (simp add: reserve_items_def split: option.splits)
qed

lemma memset_alloc_fault:
  "memset_alloc p byte cnt = Inl e \<Longrightarrow> e = Null_Dereference \<or> e = Out_Of_Bounds"
  by (auto simp: memset_alloc_def trashmap_memset_def split: option.splits if_splits)

lemma reserve_slots_result:
  assumes W: "load_inv m"
  shows "\<exists>r. reserve_slots alloc m e = Some r \<and> r \<noteq> Inl Assert_Failed \<and>
     (\<forall>m'. r = Inr m' \<longrightarrow> load_inv m' \<and> count m' = count m \<and>
        ((count m + e) mod 2 ^ 64 = count m + 1 \<longrightarrow> slot_count m' < 2 ^ 61 \<longrightarrow>
           count m + 1 \<le> slot_count m' * 3 div 4))"
proof (cases "(count m + e) mod 2 ^ 64 > (slot_count m * 3 mod 2 ^ 64) div 4")
  case False
  then have rm: "reserve_slots alloc m e = Some (Inr m)" by (simp add: reserve_slots_def)
  have "count m + 1 \<le> slot_count m * 3 div 4"
    if "(count m + e) mod 2 ^ 64 = count m + 1" "slot_count m < 2 ^ 61"
  proof -
    have "slot_count m * 3 < 2 ^ 64" using that(2) by simp
    then have "slot_count m * 3 mod 2 ^ 64 = slot_count m * 3" by simp
    then show ?thesis using False that(1) by simp
  qed
  then show ?thesis using W rm by simp
next
  case True
  define nsc where "nsc = slot_count m * 2 mod 2 ^ 64"
  define len where "len = nsc * 8 mod 2 ^ 64"
  have E: "reserve_slots alloc m e =
      (case memset_alloc (alloc_slots alloc len) 0xFF len of
                Inl e \<Rightarrow> Some (Inl e)
              | Inr None \<Rightarrow> Some (Inl Out_Of_Memory)
              | Inr (Some new_slots) \<Rightarrow>
                  (case rehash_loop m nsc new_slots 0 of
                     None \<Rightarrow> None
                   | Some (Inl e) \<Rightarrow> Some (Inl e)
                   | Some (Inr new_slots') \<Rightarrow>
                       Some (Inr (m\<lparr>slots := new_slots', slot_count := nsc\<rparr>))))"
    unfolding reserve_slots_def Let_def if_P [OF True] nsc_def [symmetric] len_def [symmetric] ..
  show ?thesis
  proof (cases "memset_alloc (alloc_slots alloc len) 0xFF len")
    case (Inl e)
    then show ?thesis unfolding E using memset_alloc_fault [OF Inl] by auto
  next
    case (Inr p)
    show ?thesis
    proof (cases p)
      case None
      then show ?thesis unfolding E Inr by simp
    next
      case (Some ns)
      have ns: "ns = replicate (len div 8) \<lparr>hash = UINT32_MAX, index = UINT32_MAX\<rparr>"
        using Inr Some by (intro memset_alloc_result [of alloc]) simp
      from rehash_loop_result [of 0 m nsc ns]
      obtain x where x: "rehash_loop m nsc ns 0 = Some x"
        and X: "x \<noteq> Inl Assert_Failed"
          "\<forall>ns'. x = Inr ns' \<longrightarrow>
            length ns' = length ns \<and>
            length (live_slots ns') \<le>
              length (live_slots ns) + length (live_slots (drop 0 (slots m))) \<and>
            (0 < slot_count m \<longrightarrow> slot_count m \<le> length (slots m))"
        by auto
      show ?thesis
      proof (cases x)
        case (Inl e)
        then show ?thesis unfolding E Inr Some using x X(1) by simp
      next
        case xr: (Inr ns')
        have rm: "reserve_slots alloc m e = Some (Inr (m\<lparr>slots := ns', slot_count := nsc\<rparr>))"
          unfolding E Inr Some using x xr by simp
        have sc: "0 < slot_count m" "length (slots m) = slot_count m mod 2 ^ 61"
            "length (items m) < 2 ^ 60" "count m \<le> 2 ^ 60"
            "slot_count m < 2 ^ 61 \<longrightarrow> count m \<le> slot_count m * 3 div 4"
            "count m \<le> 2 ^ 32 \<longrightarrow> length (live_slots (slots m)) \<le> min (count m) (2 ^ 32 - 1)"
          using W by (simp_all add: load_inv_def)
        have l: "length ns' = length ns"
            "length (live_slots ns') \<le> length (live_slots ns) + length (live_slots (slots m))"
            "slot_count m \<le> length (slots m)"
          using X(2) xr sc(1) by simp_all
        have "slot_count m mod 2 ^ 61 < (2 :: nat) ^ 61" by simp
        then have small: "slot_count m < 2 ^ 61" using l(3) sc(2) by linarith
        then have n2: "nsc = slot_count m * 2" unfolding nsc_def by simp
        have ln: "length ns = nsc mod 2 ^ 61"
          unfolding ns len_def bytes_div_8 by simp
        have lv: "length (live_slots ns) = 0"
          unfolding ns by (simp add: live_slots_replicate_empty)
        have ld: "count m + 1 \<le> nsc * 3 div 4"
          unfolding n2 using sc(1) sc(5) small by (intro load_after_doubling) simp_all
        have lv': "length (live_slots ns') \<le> length (live_slots (slots m))"
          using l(2) lv by simp
        have "load_inv (m\<lparr>slots := ns', slot_count := nsc\<rparr>)"
          unfolding load_inv_def
        proof (intro conjI impI)
          show "0 < slot_count (m\<lparr>slots := ns', slot_count := nsc\<rparr>)"
            using sc(1) by (simp add: n2)
          show "slot_count (m\<lparr>slots := ns', slot_count := nsc\<rparr>) < 2 ^ 64"
            using small by (simp add: n2)
          show "length (slots (m\<lparr>slots := ns', slot_count := nsc\<rparr>)) =
              slot_count (m\<lparr>slots := ns', slot_count := nsc\<rparr>) mod 2 ^ 61"
            using l(1) ln by simp
          show "length (items (m\<lparr>slots := ns', slot_count := nsc\<rparr>)) < 2 ^ 60"
            using sc(3) by simp
          show "count (m\<lparr>slots := ns', slot_count := nsc\<rparr>) \<le> 2 ^ 60"
            using sc(4) by simp
          show "count (m\<lparr>slots := ns', slot_count := nsc\<rparr>) \<le>
              slot_count (m\<lparr>slots := ns', slot_count := nsc\<rparr>) * 3 div 4"
            using ld by simp
          assume "count (m\<lparr>slots := ns', slot_count := nsc\<rparr>) \<le> 2 ^ 32"
          then have "length (live_slots (slots m)) \<le> min (count m) (2 ^ 32 - 1)"
            using sc(6) by simp
          then show "length (live_slots (slots (m\<lparr>slots := ns', slot_count := nsc\<rparr>))) \<le>
              min (count (m\<lparr>slots := ns', slot_count := nsc\<rparr>)) (2 ^ 32 - 1)"
            using lv' by simp
        qed
        then show ?thesis using rm ld by simp
      qed
    qed
  qed
qed

lemma trashmap_reserve_result:
  assumes W: "load_inv m" and r: "trashmap_reserve alloc m e = Some r"
  shows "r \<noteq> Inl Assert_Failed \<and>
     (\<forall>m'. r = Inr m' \<longrightarrow> load_inv m' \<and> count m' = count m \<and>
        ((count m + e) mod 2 ^ 64 = count m + 1 \<longrightarrow> slot_count m' < 2 ^ 61 \<longrightarrow>
           count m + 1 \<le> slot_count m' * 3 div 4))"
proof -
  from r obtain x where x: "reserve_items alloc m e = Some x"
    by (cases "reserve_items alloc m e") (auto simp: trashmap_reserve_def)
  from reserve_items_result [OF x] show ?thesis
  proof
    assume "x = Inl Out_Of_Memory"
    then show ?thesis using r x by (auto simp: trashmap_reserve_def)
  next
    assume "\<exists>m'. x = Inr m' \<and> slots m' = slots m \<and> slot_count m' = slot_count m \<and>
      count m' = count m \<and> (length (items m) < 2 ^ 60 \<longrightarrow> length (items m') < 2 ^ 60)"
    then obtain m1 where m1: "x = Inr m1" "slots m1 = slots m" "slot_count m1 = slot_count m"
        "count m1 = count m" "length (items m) < 2 ^ 60 \<longrightarrow> length (items m1) < 2 ^ 60"
      by blast
    have W1: "load_inv m1" using W m1(2-5) by (simp add: load_inv_def)
    have "reserve_slots alloc m1 e = Some r"
      using r x m1(1) by (simp add: trashmap_reserve_def)
    with reserve_slots_result [OF W1, of alloc e] show ?thesis unfolding m1(4) by auto
  qed
qed

text \<open>
  \<^verbatim>\<open>trashmap_reserve(map, 1)\<close>, as \<^verbatim>\<open>trashmap_set\<close> calls it, returns for every
  table: the capacity loop ends because \<open>count + 1\<close> is far below \<open>2 ^ 63\<close>.
\<close>

lemma trashmap_reserve_returns:
  assumes W: "load_inv m"
  shows "\<exists>r. trashmap_reserve alloc m 1 = Some r"
proof -
  have "count m \<le> 2 ^ 60" using W by (simp add: load_inv_def)
  then have "(count m + 1) mod 2 ^ 64 < 2 ^ 63" by simp
  from reserve_items_returns [OF this, of alloc]
  obtain x where x: "reserve_items alloc m 1 = Some x" by blast
  from reserve_items_result [OF x] show ?thesis
  proof
    assume "x = Inl Out_Of_Memory"
    then show ?thesis using x by (simp add: trashmap_reserve_def)
  next
    assume "\<exists>m'. x = Inr m' \<and> slots m' = slots m \<and> slot_count m' = slot_count m \<and>
      count m' = count m \<and> (length (items m) < 2 ^ 60 \<longrightarrow> length (items m') < 2 ^ 60)"
    then obtain m1 where m1: "x = Inr m1" "slots m1 = slots m" "slot_count m1 = slot_count m"
        "count m1 = count m" "length (items m) < 2 ^ 60 \<longrightarrow> length (items m1) < 2 ^ 60"
      by blast
    have W1: "load_inv m1" using W m1(2-5) by (simp add: load_inv_def)
    from reserve_slots_result [OF W1, of alloc 1] show ?thesis
      using x m1(1) by (auto simp: trashmap_reserve_def)
  qed
qed

lemma set_stop_result:
  "set_stop mem m k v h p = Some r \<Longrightarrow>
   r = Inl Out_Of_Bounds \<or>
   (\<exists>m'. r = Inr m' \<and> slot_count m' = slot_count m \<and> capacity m' = capacity m \<and>
      (slots m' = slots m \<and> count m' = count m \<or>
       slots m' = (slots m)[p := \<lparr>hash = h, index = of_nat (count m)\<rparr>] \<and>
       count m' = (count m + 1) mod 2 ^ 64))"
  by (auto simp: set_stop_def key_matches_def split: if_splits sum.splits)

lemma set_stop_shape:
  "set_stop mem m k v h p = Some (Inr m') \<Longrightarrow>
   slot_count m' = slot_count m \<and> length (slots m') = length (slots m) \<and>
   length (items m') = length (items m) \<and>
   (slots m' = slots m \<and> count m' = count m \<or>
    slots m' = (slots m)[p := \<lparr>hash = h, index = of_nat (count m)\<rparr>] \<and>
    count m < length (items m) \<and> count m' = (count m + 1) mod 2 ^ 64)"
  by (auto simp: set_stop_def key_matches_def split: if_splits sum.splits)

lemma set_stop_none:
  "set_stop mem m k v h p = None \<Longrightarrow>
   p < length (slots m) \<and> index (slots m ! p) \<noteq> UINT32_MAX"
  by (auto simp: set_stop_def split: if_splits sum.splits)

text \<open>
  The probe loop of \<^verbatim>\<open>trashmap_set\<close> returns for every table with a slot; it wraps
  only when every slot of the probe ring is occupied.
\<close>

lemma trashmap_set_loop_result:
  fixes h :: "32 word"
  assumes sc: "0 < slot_count m"
  shows "\<exists>r. trashmap_set_loop mem m k v h (of_nat (unat h mod slot_count m))
              (of_nat (unat h mod slot_count m)) = Some r \<and>
     (length (live_slots (slots m)) < ring (slot_count m) \<longrightarrow> r \<noteq> Inl Assert_Failed) \<and>
     (\<forall>m'. r = Inr m' \<longrightarrow> slot_count m' = slot_count m \<and>
        length (slots m') = length (slots m) \<and> length (items m') = length (items m) \<and>
        (slots m' = slots m \<and> count m' = count m \<or>
         (\<exists>p. slots m' = (slots m)[p := \<lparr>hash = h, index = of_nat (count m)\<rparr>]) \<and>
         count m < length (items m) \<and> count m' = (count m + 1) mod 2 ^ 64))"
proof -
  let ?start = "of_nat (unat h mod slot_count m) :: 32 word"
  let ?M = "ring (slot_count m)"
  note R = probe_loop_result [where L = "\<lambda>idx n. trashmap_set_loop mem m k v h ?start idx"
        and St = "set_stop mem m k v h" and F = "\<lambda>r n. Some r"
        and sc = "slot_count m" and start = ?start
        and W = "\<lambda>n. Some (Inl Assert_Failed)" and h = h,
        OF trashmap_set_loop_unfold sc refl]
  from R show ?thesis
  proof cases
    case (1 j x)
    have "x \<noteq> Inl Assert_Failed" using set_stop_result [OF 1(2)] by auto
    moreover have "slot_count m' = slot_count m \<and>
        length (slots m') = length (slots m) \<and> length (items m') = length (items m) \<and>
        (slots m' = slots m \<and> count m' = count m \<or>
         (\<exists>p. slots m' = (slots m)[p := \<lparr>hash = h, index = of_nat (count m)\<rparr>]) \<and>
         count m < length (items m) \<and> count m' = (count m + 1) mod 2 ^ 64)"
      if "x = Inr m'" for m'
    proof -
      have s: "set_stop mem m k v h ((home (slot_count m) h + j) mod ?M) = Some (Inr m')"
        using 1(2) that by simp
      from set_stop_shape [OF s] show ?thesis by auto
    qed
    ultimately show ?thesis using 1(4) by auto
  next
    case 2
    have hM: "home (slot_count m) h < ?M" using sc by (rule home_less_ring)
    have all: "p < length (slots m) \<and> index (slots m ! p) \<noteq> UINT32_MAX" if p: "p < ?M" for p
    proof -
      let ?d = "(p + ?M - home (slot_count m) h) mod ?M"
      have "?d < ?M" "(home (slot_count m) h + ?d) mod ?M = p"
        using ring_dist [OF hM p] by simp_all
      then have "set_stop mem m k v h p = None" using 2(1) by metis
      then show ?thesis by (rule set_stop_none)
    qed
    have "0 < ?M" using sc by (rule ring_pos)
    then have "?M - 1 < ?M" by simp
    then have "?M - 1 < length (slots m)" using all by blast
    then have M: "?M \<le> length (slots m)" by simp
    have "\<not> length (live_slots (slots m)) < ?M"
    proof
      assume "length (live_slots (slots m)) < ?M"
      then have "size (mset (live_slots (slots m))) < ?M" by simp
      from this M have "\<exists>p<?M. index (slots m ! p) = UINT32_MAX"
        by (rule empty_slot_exists)
      then show False using all by blast
    qed
    then show ?thesis using 2(2) by simp
  qed
qed

text \<open>
  \<^verbatim>\<open>trashmap_set\<close> on a table of a sequence of calls: it returns, with a table of
  the same kind or by a fault, and as long as the table has at most \<open>2 ^ 32\<close>
  entries the fault is not the assertion, because fewer slots are occupied than the
  probe ring has.
\<close>

lemma trashmap_set_result:
  assumes W: "load_inv m"
  shows "\<exists>r. trashmap_set alloc mem m k v = Some r \<and>
     (count m \<le> 2 ^ 32 \<longrightarrow> r \<noteq> Inl Assert_Failed) \<and>
     (\<forall>m'. r = Inr m' \<longrightarrow> load_inv m')"
proof -
  from trashmap_reserve_returns [OF W, of alloc]
  obtain x where x: "trashmap_reserve alloc m 1 = Some x" by blast
  have c: "count m \<le> 2 ^ 60" using W by (simp add: load_inv_def)
  then have c1: "(count m + 1) mod 2 ^ 64 = count m + 1" by simp
  note X = trashmap_reserve_result [OF W x]
  show ?thesis
  proof (cases x)
    case (Inl e)
    then show ?thesis using x X by (auto simp: trashmap_set_def)
  next
    case (Inr m1)
    then have W1: "load_inv m1" and cm: "count m1 = count m"
      and ld: "slot_count m1 < 2 ^ 61 \<longrightarrow> count m + 1 \<le> slot_count m1 * 3 div 4"
      using X c1 by simp_all
    have sc: "0 < slot_count m1" "slot_count m1 < 2 ^ 64"
        "length (slots m1) = slot_count m1 mod 2 ^ 61" "length (items m1) < 2 ^ 60"
        "count m1 \<le> 2 ^ 32 \<longrightarrow> length (live_slots (slots m1)) \<le> min (count m1) (2 ^ 32 - 1)"
      using W1 by (simp_all add: load_inv_def)
    let ?h = "trashmap_hash (mem k)"
    let ?start = "of_nat (unat ?h mod slot_count m1) :: 32 word"
    have E: "trashmap_set alloc mem m k v = trashmap_set_loop mem m1 k v ?h ?start ?start"
      using x Inr sc(1) by (simp add: trashmap_set_def Let_def)
    from trashmap_set_loop_result [OF sc(1), of mem k v ?h]
    obtain r where r: "trashmap_set_loop mem m1 k v ?h ?start ?start = Some r"
      and A: "length (live_slots (slots m1)) < ring (slot_count m1) \<longrightarrow> r \<noteq> Inl Assert_Failed"
      and S: "\<forall>m'. r = Inr m' \<longrightarrow> slot_count m' = slot_count m1 \<and>
        length (slots m') = length (slots m1) \<and> length (items m') = length (items m1) \<and>
        (slots m' = slots m1 \<and> count m' = count m1 \<or>
         (\<exists>p. slots m' = (slots m1)[p := \<lparr>hash = ?h, index = of_nat (count m1)\<rparr>]) \<and>
         count m1 < length (items m1) \<and> count m' = (count m1 + 1) mod 2 ^ 64)"
      by blast
    have cs: "count m < slot_count m1"
    proof (cases "slot_count m1 < 2 ^ 61")
      case True
      have "slot_count m1 * 3 div 4 \<le> slot_count m1" by simp
      then show ?thesis using ld True by linarith
    next
      case False
      then show ?thesis using c by simp
    qed
    have na: "r \<noteq> Inl Assert_Failed" if "count m \<le> 2 ^ 32"
    proof -
      have "length (live_slots (slots m1)) \<le> min (count m) (2 ^ 32 - 1)"
        using sc(5) that unfolding cm by simp
      then have "length (live_slots (slots m1)) < ring (slot_count m1)"
        using cs by (simp add: ring_def)
      then show ?thesis using A by simp
    qed
    have "load_inv m'" if m': "r = Inr m'" for m'
    proof -
      from S m' have s: "slot_count m' = slot_count m1" "length (slots m') = length (slots m1)"
          "length (items m') = length (items m1)"
          "slots m' = slots m1 \<and> count m' = count m1 \<or>
           (\<exists>p. slots m' = (slots m1)[p := \<lparr>hash = ?h, index = of_nat (count m1)\<rparr>]) \<and>
           count m1 < length (items m1) \<and> count m' = (count m1 + 1) mod 2 ^ 64"
        by simp_all
      from s(4) show ?thesis
      proof
        assume "slots m' = slots m1 \<and> count m' = count m1"
        then show ?thesis using W1 load_inv_cong [of m' m1] s(1,3) by simp
      next
        assume a: "(\<exists>p. slots m' = (slots m1)[p := \<lparr>hash = ?h, index = of_nat (count m1)\<rparr>]) \<and>
           count m1 < length (items m1) \<and> count m' = (count m1 + 1) mod 2 ^ 64"
        then obtain p where
          p: "slots m' = (slots m1)[p := \<lparr>hash = ?h, index = of_nat (count m1)\<rparr>]"
          by blast
        have c': "count m' = count m + 1" using a unfolding cm c1 by simp
        have c60: "count m + 1 \<le> 2 ^ 60" using a sc(4) unfolding cm by simp
        have lv: "length (live_slots (slots m')) \<le> min (count m') (2 ^ 32 - 1)"
          if le: "count m' \<le> 2 ^ 32"
        proof -
          have c32: "count m < 2 ^ 32" using le unfolding c' by simp
          then have l1: "length (live_slots (slots m1)) \<le> count m"
            using sc(5) unfolding cm by simp
          show ?thesis
          proof (cases "of_nat (count m1) = UINT32_MAX")
            case True
            then have "length (live_slots (slots m')) \<le> length (live_slots (slots m1))"
              unfolding p live_slots_def by (intro length_filter_update_same) simp
            then show ?thesis using l1 c32 unfolding c' by simp
          next
            case False
            have "count m \<noteq> 4294967295"
            proof
              assume "count m = 4294967295"
              then have "of_nat (count m1) = UINT32_MAX"
                unfolding cm by (simp add: UINT32_MAX_def)
              then show False using False by simp
            qed
            then have "count m + 1 \<le> 2 ^ 32 - 1" using c32 by simp
            moreover have "length (live_slots (slots m')) \<le>
                length (live_slots (slots m1)) + 1"
              unfolding p live_slots_def by (rule length_filter_update_le)
            ultimately show ?thesis using l1 unfolding c' by simp
          qed
        qed
        show ?thesis
          unfolding load_inv_def
          using sc(1,2,3,4) s(1,2,3) ld c60 lv unfolding c' by simp
      qed
    qed
    then show ?thesis unfolding E using r na by blast
  qed
qed

lemma trashmap_clear_load_inv:
  assumes W: "load_inv m" and r: "trashmap_clear m = Inr m'"
  shows "load_inv m'"
proof -
  have l: "length (slots m) = slot_count m mod 2 ^ 61" using W by (simp add: load_inv_def)
  have d: "slot_count m * 8 mod 2 ^ 64 div 8 = length (slots m)"
    unfolding l by (rule bytes_div_8)
  have "m' = m\<lparr>count := 0,
      slots := replicate (length (slots m)) \<lparr>hash = UINT32_MAX, index = UINT32_MAX\<rparr>\<rparr>"
    using r unfolding trashmap_clear_def trashmap_memset_def d
    by (auto simp: fill_slot_FF split: if_splits)
  then show ?thesis
    using W by (simp add: load_inv_def live_slots_replicate_empty)
qed

lemma apply_operation_load_inv:
  assumes "load_inv m" "apply_operation alloc mem m x = Some (Inr m')"
  shows "load_inv m'"
proof (cases x)
  case (Op_set k v)
  then show ?thesis using trashmap_set_result [OF assms(1), of alloc mem k v] assms(2)
    by auto
next
  case (Op_reserve extra)
  then show ?thesis using trashmap_reserve_result [OF assms(1), of alloc extra] assms(2)
    by simp
next
  case Op_clear
  then show ?thesis using trashmap_clear_load_inv [OF assms(1)] assms(2) by simp
next
  case (Op_get k)
  then show ?thesis using assms(1,2) by (auto split: option.splits sum.splits)
next
  case (Op_has k)
  then show ?thesis using assms(1,2) by (auto split: option.splits sum.splits)
qed

lemma run_operations_load_inv:
  "load_inv m \<Longrightarrow> run_operations alloc mem m xs = Some (Inr m') \<Longrightarrow> load_inv m'"
proof (induction xs arbitrary: m)
  case Nil
  then show ?case by simp
next
  case (Cons x xs)
  from Cons.prems(2) obtain m1 where m1: "apply_operation alloc mem m x = Some (Inr m1)"
      "run_operations alloc mem m1 xs = Some (Inr m')"
    by (auto split: option.splits sum.splits)
  have "load_inv m1" by (rule apply_operation_load_inv [OF Cons.prems(1) m1(1)])
  then show ?case using m1(2) by (rule Cons.IH)
qed

lemma trashmap_init_load_inv:
  assumes "0 < n" "n < 2 ^ 64" "trashmap_init alloc n = Inr m"
  shows "load_inv m"
proof -
  from assms(1,3) obtain s where
    s: "memset_alloc (alloc_slots alloc (n * 8 mod 2 ^ 64)) 0xFF (n * 8 mod 2 ^ 64) = Inr (Some s)"
    and m: "m = \<lparr>slots = s, items = [], slot_count = n, count = 0, capacity = 0\<rparr>"
    by (auto simp: trashmap_init_def Let_def split: sum.splits option.splits)
  have "s = replicate (n mod 2 ^ 61) \<lparr>hash = UINT32_MAX, index = UINT32_MAX\<rparr>"
    using memset_alloc_result [OF s] unfolding bytes_div_8 .
  then show ?thesis
    using assms(1,2) unfolding m load_inv_def by (simp add: live_slots_replicate_empty)
qed

section \<open>A slot table that fills up\<close>

lemma filter_two_positions:
  assumes "i < j" "j < length xs" "Q (xs ! i)" "Q (xs ! j)"
  shows "2 \<le> length (filter Q xs)"
proof -
  have "xs ! i \<in> set (take j xs)"
    using assms(1,2) by (auto simp: in_set_conv_nth intro!: exI [of _ i])
  then have "filter Q (take j xs) \<noteq> []" using assms(3) by (auto simp: filter_empty_conv)
  then have a: "1 \<le> length (filter Q (take j xs))" by (cases "filter Q (take j xs)") simp_all
  have "xs ! j \<in> set (drop j xs)"
    using assms(2) by (auto simp: in_set_conv_nth intro!: exI [of _ 0])
  then have "filter Q (drop j xs) \<noteq> []" using assms(4) by (auto simp: filter_empty_conv)
  then have b: "1 \<le> length (filter Q (drop j xs))" by (cases "filter Q (drop j xs)") simp_all
  have "filter Q xs = filter Q (take j xs) @ filter Q (drop j xs)"
    by (metis append_take_drop_id filter_append)
  then show ?thesis using a b by simp
qed

lemma filter_two_fail:
  assumes "i < length xs" "j < length xs" "i \<noteq> j" "\<not> P (xs ! i)" "\<not> P (xs ! j)"
  shows "length (filter P xs) + 2 \<le> length xs"
proof -
  have "2 \<le> length (filter (\<lambda>x. \<not> P x) xs)"
  proof (cases "i < j")
    case True
    then show ?thesis using assms by (intro filter_two_positions [of i j]) simp_all
  next
    case False
    then have "j < i" using assms(3) by simp
    then show ?thesis using assms by (intro filter_two_positions [of j i]) simp_all
  qed
  then show ?thesis using sum_length_filter_compl [of P xs] by simp
qed

lemma all_but_one_live:
  assumes inv: "table_inv mem m" and cnt: "count m + 1 = ring (slot_count m)"
    and p0: "p0 < ring (slot_count m)" "index (slots m ! p0) = UINT32_MAX"
    and p: "p < ring (slot_count m)" "p \<noteq> p0"
  shows "index (slots m ! p) \<noteq> UINT32_MAX"
proof
  assume e: "index (slots m ! p) = UINT32_MAX"
  note I = table_invD [OF inv]
  let ?M = "ring (slot_count m)"
  let ?L = "\<lambda>s. index s \<noteq> UINT32_MAX"
  let ?xs = "take ?M (slots m)"
  have M: "?M \<le> length (slots m)" using ring_le [of "slot_count m"] I(3) by simp
  then have len: "length ?xs = ?M" by simp
  have "\<not> ?L s" if "s \<in> set (drop ?M (slots m))" for s
  proof -
    from that obtain q where q: "q < length (slots m) - ?M" "drop ?M (slots m) ! q = s"
      by (auto simp: in_set_conv_nth)
    then have s: "slots m ! (?M + q) = s" "?M + q < length (slots m)" using M by simp_all
    show ?thesis
    proof
      assume "?L s"
      then have "?M + q < ?M" using I(10) s unfolding chain_ok_def by blast
      then show False by simp
    qed
  qed
  then have "filter ?L (drop ?M (slots m)) = []" by (auto simp: filter_empty_conv)
  moreover have "filter ?L (slots m) = filter ?L ?xs @ filter ?L (drop ?M (slots m))"
    by (metis append_take_drop_id filter_append)
  ultimately have "length (filter ?L ?xs) = count m"
    using length_live_slots [OF inv] by (simp add: live_slots_def)
  moreover have "length (filter ?L ?xs) + 2 \<le> length ?xs"
    by (rule filter_two_fail [of p _ p0]) (use p p0 e len in simp_all)
  ultimately show False using cnt len by simp
qed

lemma set_stop_continue:
  assumes "p < length (slots m)" "index (slots m ! p) \<noteq> UINT32_MAX"
    "hash (slots m ! p) = h \<longrightarrow>
       unat (index (slots m ! p)) < length (items m) \<and>
       cstr (mem (key (items m ! unat (index (slots m ! p))))) \<noteq> cstr (mem k)"
  shows "set_stop mem m k v h p = None"
  using assms by (auto simp: set_stop_def key_matches_def trashmap_strcmp_eq_0_iff)

lemma set_stop_insert:
  assumes "p < length (slots m)" "index (slots m ! p) = UINT32_MAX" "count m < length (items m)"
  shows "set_stop mem m k v h p =
     Some (Inr (m\<lparr>items := (items m)[count m := \<lparr>key = k, value_ref = v\<rparr>],
                  slots := (slots m)[p := \<lparr>hash = h, index = of_nat (count m)\<rparr>],
                  count := (count m + 1) mod 2 ^ 64\<rparr>))"
  using assms by (simp add: set_stop_def)

lemma set_loop_unique_stop:
  fixes h :: "32 word"
  assumes sc: "0 < slot_count m" and p0: "p0 < ring (slot_count m)"
    and stop: "set_stop mem m k v h p0 = Some r"
    and others: "\<forall>p<ring (slot_count m). p \<noteq> p0 \<longrightarrow> set_stop mem m k v h p = None"
  shows "trashmap_set_loop mem m k v h (of_nat (unat h mod slot_count m))
           (of_nat (unat h mod slot_count m)) = Some r"
proof -
  let ?start = "of_nat (unat h mod slot_count m) :: 32 word"
  let ?M = "ring (slot_count m)"
  note R = probe_loop_result [where L = "\<lambda>idx n. trashmap_set_loop mem m k v h ?start idx"
        and St = "set_stop mem m k v h" and F = "\<lambda>r n. Some r"
        and sc = "slot_count m" and start = ?start
        and W = "\<lambda>n. Some (Inl Assert_Failed)" and h = h,
        OF trashmap_set_loop_unfold sc refl]
  have M: "0 < ?M" using sc by (rule ring_pos)
  from R show ?thesis
  proof cases
    case (1 j x)
    have "(home (slot_count m) h + j) mod ?M < ?M" using M by simp
    then have "(home (slot_count m) h + j) mod ?M = p0" using others 1(2) by force
    then show ?thesis using 1(2,4) stop by simp
  next
    case 2
    have hM: "home (slot_count m) h < ?M" using sc by (rule home_less_ring)
    let ?d = "(p0 + ?M - home (slot_count m) h) mod ?M"
    have "?d < ?M" "(home (slot_count m) h + ?d) mod ?M = p0"
      using ring_dist [OF hM p0] by simp_all
    then have "set_stop mem m k v h p0 = None" using 2(1) by metis
    then show ?thesis using stop by simp
  qed
qed

lemma set_loop_all_continue:
  fixes h :: "32 word"
  assumes sc: "0 < slot_count m"
    and all: "\<forall>p<ring (slot_count m). set_stop mem m k v h p = None"
  shows "trashmap_set_loop mem m k v h (of_nat (unat h mod slot_count m))
           (of_nat (unat h mod slot_count m)) = Some (Inl Assert_Failed)"
proof -
  let ?start = "of_nat (unat h mod slot_count m) :: 32 word"
  let ?M = "ring (slot_count m)"
  note R = probe_loop_result [where L = "\<lambda>idx n. trashmap_set_loop mem m k v h ?start idx"
        and St = "set_stop mem m k v h" and F = "\<lambda>r n. Some r"
        and sc = "slot_count m" and start = ?start
        and W = "\<lambda>n. Some (Inl Assert_Failed)" and h = h,
        OF trashmap_set_loop_unfold sc refl]
  have M: "0 < ?M" using sc by (rule ring_pos)
  from R show ?thesis
  proof cases
    case (1 j x)
    have "(home (slot_count m) h + j) mod ?M < ?M" using M by simp
    then show ?thesis using all 1(2) by force
  next
    case 2
    then show ?thesis by simp
  qed
qed

lemma trashmap_reserve_plain:
  assumes len: "length (items m) = capacity m" and cap: "capacity m < 2 ^ 60"
    and need: "(count m + e) mod 2 ^ 64 \<le> 2 ^ 59"
    and load: "(count m + e) mod 2 ^ 64 \<le> slot_count m * 3 mod 2 ^ 64 div 4"
  shows "\<exists>its. trashmap_reserve served m e =
       Some (Inr (m\<lparr>capacity := length its, items := its\<rparr>)) \<and>
     take (capacity m) its = items m \<and> capacity m \<le> length its \<and> length its < 2 ^ 60 \<and>
     (count m + e) mod 2 ^ 64 \<le> length its"
proof -
  define nd where "nd = (count m + e) mod 2 ^ 64"
  have ne: "nd \<le> 2 ^ 59" using need unfolding nd_def .
  have ld: "\<not> nd > slot_count m * 3 mod 2 ^ 64 div 4" using load unfolding nd_def by simp
  have S: "reserve_slots served x e = Some (Inr x)"
    if "count x = count m" "slot_count x = slot_count m" for x
    using ld unfolding reserve_slots_def nd_def that by simp
  show ?thesis
  proof (cases "nd > capacity m")
    case False
    then have "reserve_items served m e = Some (Inr m)"
      unfolding reserve_items_def nd_def by simp
    then have "trashmap_reserve served m e = Some (Inr m)"
      using S [of m] by (simp add: trashmap_reserve_def)
    moreover have "m\<lparr>capacity := length (items m), items := items m\<rparr> = m"
      using len by simp
    ultimately show ?thesis using False len cap unfolding nd_def
      by (intro exI [of _ "items m"]) simp
  next
    case True
    let ?cap0 = "if capacity m = 0 then 16 else capacity m"
    have "0 < ?cap0" "?cap0 < 2 ^ 60" using cap by simp_all
    with reserve_capacity_loop_correct [of nd ?cap0] ne
    obtain c where c: "reserve_capacity_loop nd ?cap0 = Some c"
        "nd \<le> c" "?cap0 \<le> c" "c < 2 ^ 60"
      by auto
    define its where
      "its = items m @ replicate (c - length (items m)) \<lparr>key = NULL, value_ref = NULL\<rparr>"
    have cc: "capacity m \<le> c" using c(3) by (simp split: if_splits)
    have ra: "realloc_items served (items m) (c * 16 mod 2 ^ 64) = Some its"
      unfolding its_def by (rule realloc_items_grow) (use cc c(4) len in simp_all)
    have li: "length its = c" using cc len unfolding its_def by simp
    have "reserve_items served m e = Some (Inr (m\<lparr>capacity := c, items := its\<rparr>))"
      using True c(1) ra unfolding reserve_items_def nd_def [symmetric] by simp
    then have "trashmap_reserve served m e = Some (Inr (m\<lparr>capacity := c, items := its\<rparr>))"
      using S [of "m\<lparr>capacity := c, items := its\<rparr>"] by (simp add: trashmap_reserve_def)
    moreover have "take (capacity m) its = items m" using len unfolding its_def by simp
    ultimately show ?thesis using cc c(2,4) li unfolding nd_def
      by (intro exI [of _ its]) simp
  qed
qed

lemma trashmap_set_loop_slot_count:
  fixes h :: "32 word"
  assumes sc: "0 < slot_count m"
    and r: "trashmap_set_loop mem m k v h (of_nat (unat h mod slot_count m))
              (of_nat (unat h mod slot_count m)) = Some (Inr m')"
  shows "slot_count m' = slot_count m" "capacity m' = capacity m"
proof -
  let ?start = "of_nat (unat h mod slot_count m) :: 32 word"
  note R = probe_loop_result [where L = "\<lambda>idx n. trashmap_set_loop mem m k v h ?start idx"
        and St = "set_stop mem m k v h" and F = "\<lambda>r n. Some r"
        and sc = "slot_count m" and start = ?start
        and W = "\<lambda>n. Some (Inl Assert_Failed)" and h = h,
        OF trashmap_set_loop_unfold sc refl]
  from R show "slot_count m' = slot_count m"
  proof cases
    case (1 j x)
    then have "set_stop mem m k v h ((home (slot_count m) h + j) mod ring (slot_count m)) =
        Some (Inr m')" using r by simp
    from set_stop_result [OF this] show ?thesis by auto
  next
    case 2
    then show ?thesis using r by simp
  qed
  from R show "capacity m' = capacity m"
  proof cases
    case (1 j x)
    then have "set_stop mem m k v h ((home (slot_count m) h + j) mod ring (slot_count m)) =
        Some (Inr m')" using r by simp
    from set_stop_result [OF this] show ?thesis by auto
  next
    case 2
    then show ?thesis using r by simp
  qed
qed

lemma reserve_capacity_loop_bound:
  assumes "need \<le> 2 ^ 59"
  shows "0 < cap \<Longrightarrow> cap < 2 ^ 60 \<Longrightarrow> reserve_capacity_loop need cap = Some c \<Longrightarrow>
     c \<le> max cap (2 * need)"
proof (induction "need - cap" arbitrary: cap rule: less_induct)
  case less
  show ?case
  proof (cases "need > cap")
    case True
    then have c2: "cap * 2 < 2 ^ 60" using assms by simp
    then have m: "cap * 2 mod 2 ^ 64 = cap * 2" by simp
    have "reserve_capacity_loop need (cap * 2) = Some c"
      using less(4) True m by (subst (asm) reserve_capacity_loop.simps) simp
    then have "c \<le> max (cap * 2) (2 * need)"
      by (intro less(1)) (use less(2) True c2 in simp_all)
    then show ?thesis using True by simp
  next
    case False
    then show ?thesis using less(4) by (subst (asm) reserve_capacity_loop.simps) simp
  qed
qed

text \<open>
  \<^verbatim>\<open>trashmap_reserve\<close> where the slot table does not grow, with an allocator that
  serves the requests up to the size the arena can grow to.
\<close>

lemma trashmap_reserve_bounded:
  assumes len: "length (items m) = capacity m" and cap: "capacity m < 2 ^ 60"
    and need: "(count m + e) mod 2 ^ 64 \<le> 2 ^ 59"
    and load: "(count m + e) mod 2 ^ 64 \<le> slot_count m * 3 mod 2 ^ 64 div 4"
    and al: "\<forall>b\<le>16 * max (capacity m) (max 16 (2 * ((count m + e) mod 2 ^ 64))). alloc b"
  shows "\<exists>m'. trashmap_reserve alloc m e = Some (Inr m') \<and>
     trashmap_reserve served m e = Some (Inr m') \<and>
     capacity m' \<le> max (capacity m) (max 16 (2 * ((count m + e) mod 2 ^ 64)))"
proof -
  define nd where "nd = (count m + e) mod 2 ^ 64"
  have ne: "nd \<le> 2 ^ 59" using need unfolding nd_def .
  have ld: "\<not> nd > slot_count m * 3 mod 2 ^ 64 div 4" using load unfolding nd_def by simp
  have S: "reserve_slots a x e = Some (Inr x)"
    if "count x = count m" "slot_count x = slot_count m" for x a
    using ld unfolding reserve_slots_def nd_def that by simp
  show ?thesis
  proof (cases "nd > capacity m")
    case False
    then have "reserve_items a m e = Some (Inr m)" for a
      unfolding reserve_items_def nd_def by simp
    then have "trashmap_reserve a m e = Some (Inr m)" for a
      using S [of m] by (simp add: trashmap_reserve_def)
    then show ?thesis by simp
  next
    case True
    let ?cap0 = "if capacity m = 0 then 16 else capacity m"
    have c0: "0 < ?cap0" "?cap0 < 2 ^ 60" using cap by simp_all
    with reserve_capacity_loop_correct [of nd ?cap0] ne
    obtain c where c: "reserve_capacity_loop nd ?cap0 = Some c"
        "nd \<le> c" "?cap0 \<le> c" "c < 2 ^ 60"
      by auto
    have "c \<le> max ?cap0 (2 * nd)" using ne c0 c(1) by (rule reserve_capacity_loop_bound)
    then have cb: "c \<le> max (capacity m) (max 16 (2 * nd))" by (simp split: if_splits)
    define its where
      "its = items m @ replicate (c - length (items m)) \<lparr>key = NULL, value_ref = NULL\<rparr>"
    have cc: "capacity m \<le> c" using c(3) by (simp split: if_splits)
    have ra: "realloc_items served (items m) (c * 16 mod 2 ^ 64) = Some its"
      unfolding its_def by (rule realloc_items_grow) (use cc c(4) len in simp_all)
    have "c * 16 < 2 ^ 64" using c(4) by simp
    then have "c * 16 mod 2 ^ 64 = c * 16" by simp
    then have "c * 16 mod 2 ^ 64 \<le> 16 * max (capacity m) (max 16 (2 * nd))"
      using cb by simp
    then have "alloc (c * 16 mod 2 ^ 64)" using al unfolding nd_def by blast
    then have rb: "realloc_items alloc (items m) (c * 16 mod 2 ^ 64) = Some its"
      using ra by (simp add: realloc_items_def)
    have "reserve_items a m e = Some (Inr (m\<lparr>capacity := c, items := its\<rparr>))"
      if "realloc_items a (items m) (c * 16 mod 2 ^ 64) = Some its" for a
      using True c(1) that unfolding reserve_items_def nd_def [symmetric] by simp
    then have "trashmap_reserve a m e = Some (Inr (m\<lparr>capacity := c, items := its\<rparr>))"
      if "realloc_items a (items m) (c * 16 mod 2 ^ 64) = Some its" for a
      using that S [of "m\<lparr>capacity := c, items := its\<rparr>"] by (simp add: trashmap_reserve_def)
    then show ?thesis using ra rb cb unfolding nd_def by simp
  qed
qed

lemma trashmap_set_bounded:
  assumes len: "length (items m) = capacity m" and cap: "capacity m < 2 ^ 60"
    and c59: "count m < 2 ^ 59"
    and load: "count m + 1 \<le> slot_count m * 3 mod 2 ^ 64 div 4"
    and al: "\<forall>b\<le>16 * max (capacity m) (max 16 (2 * (count m + 1))). alloc b"
  shows "trashmap_set alloc mem m k v = trashmap_set served mem m k v"
    and "trashmap_set served mem m k v = Some (Inr m') \<Longrightarrow>
      capacity m' \<le> max (capacity m) (max 16 (2 * (count m + 1)))"
proof -
  have c1: "(count m + 1) mod 2 ^ 64 = count m + 1" using c59 by simp
  have n1: "(count m + 1) mod 2 ^ 64 \<le> 2 ^ 59" unfolding c1 using c59 by simp
  have n2: "(count m + 1) mod 2 ^ 64 \<le> slot_count m * 3 mod 2 ^ 64 div 4"
    unfolding c1 using load .
  have n3: "\<forall>b\<le>16 * max (capacity m) (max 16 (2 * ((count m + 1) mod 2 ^ 64))). alloc b"
    unfolding c1 using al .
  from trashmap_reserve_bounded [OF len cap n1 n2 n3]
  obtain m1 where m1: "trashmap_reserve alloc m 1 = Some (Inr m1)"
      "trashmap_reserve served m 1 = Some (Inr m1)"
      "capacity m1 \<le> max (capacity m) (max 16 (2 * (count m + 1)))"
    unfolding c1 by blast
  show "trashmap_set alloc mem m k v = trashmap_set served mem m k v"
    unfolding trashmap_set_def m1(1,2) ..
  assume r: "trashmap_set served mem m k v = Some (Inr m')"
  let ?h = "trashmap_hash (mem k)"
  have sc: "0 < slot_count m1"
    using r unfolding trashmap_set_def m1(2) by (auto split: if_splits)
  then have "trashmap_set_loop mem m1 k v ?h (of_nat (unat ?h mod slot_count m1))
      (of_nat (unat ?h mod slot_count m1)) = Some (Inr m')"
    using r unfolding trashmap_set_def m1(2) by (simp add: Let_def)
  from trashmap_set_loop_slot_count(2) [OF sc this] show
    "capacity m' \<le> max (capacity m) (max 16 (2 * (count m + 1)))"
    using m1(3) by simp
qed

lemma trashmap_set_slot_count:
  assumes inv: "table_inv mem m" and load: "count m + 1 \<le> slot_count m * 3 div 4"
    and r: "trashmap_set served mem m k v = Some (Inr m')"
  shows "slot_count m' = slot_count m"
proof -
  note I = table_invD [OF inv]
  have c1: "(count m + 1) mod 2 ^ 64 = count m + 1" using I(8) by simp
  have "slot_count m * 3 < 2 ^ 64" using I(2) by simp
  then have s3: "slot_count m * 3 mod 2 ^ 64 = slot_count m * 3" by simp
  have n1: "(count m + 1) mod 2 ^ 64 \<le> 2 ^ 59" unfolding c1 using I(8) by simp
  have n2: "(count m + 1) mod 2 ^ 64 \<le> slot_count m * 3 mod 2 ^ 64 div 4"
    unfolding c1 s3 using load .
  from trashmap_reserve_plain [OF I(4,5) n1 n2]
  obtain its where
    its: "trashmap_reserve served m 1 = Some (Inr (m\<lparr>capacity := length its, items := its\<rparr>))"
    by blast
  let ?m1 = "m\<lparr>capacity := length its, items := its\<rparr>"
  let ?h = "trashmap_hash (mem k)"
  have "trashmap_set_loop mem ?m1 k v ?h (of_nat (unat ?h mod slot_count ?m1))
      (of_nat (unat ?h mod slot_count ?m1)) = Some (Inr m')"
    using r I(1) unfolding trashmap_set_def its by (simp add: Let_def)
  from trashmap_set_loop_slot_count(1) [OF _ this] show ?thesis using I(1) by simp
qed

lemma run_sets_bounded:
  "table_inv mem m \<Longrightarrow>
   distinct (map (\<lambda>it. cstr (mem (key it))) (entries m) @ map (\<lambda>(k, v). cstr (mem k)) kvs) \<Longrightarrow>
   count m + length kvs < 2 ^ 32 \<Longrightarrow> count m + length kvs \<le> slot_count m * 3 div 4 \<Longrightarrow>
   capacity m \<le> max 16 (2 * count m) \<Longrightarrow>
   \<forall>b\<le>16 * max 16 (2 * (count m + length kvs)). alloc b \<Longrightarrow>
   \<exists>m'. run_operations alloc mem m (map (\<lambda>(k, v). Op_set k v) kvs) = Some (Inr m') \<and>
     table_inv mem m' \<and>
     entries m' = entries m @ map (\<lambda>(k, v). \<lparr>key = k, value_ref = v\<rparr>) kvs \<and>
     slot_count m' = slot_count m \<and> capacity m' \<le> max 16 (2 * count m')"
proof (induction kvs arbitrary: m)
  case Nil
  then show ?case by simp
next
  case (Cons kv kvs)
  obtain k v where kv: "kv = (k, v)" by (cases kv)
  note I = table_invD [OF Cons.prems(1)]
  have a: "\<not> entries_has mem (entries m) k"
    using Cons.prems(2) unfolding kv entries_has_def same_key_def by force
  from trashmap_set_correct [OF Cons.prems(1), of k v] Cons.prems(3)
  obtain m1 where m1: "trashmap_set served mem m k v = Some (Inr m1)" "table_inv mem m1"
      "entries m1 = entries_set mem (entries m) k v" by auto
  have e1: "entries m1 = entries m @ [\<lparr>key = k, value_ref = v\<rparr>]"
    unfolding m1(3) by (rule entries_set_absent [OF a])
  have c1: "count m1 = count m + 1"
    using length_entries [OF m1(2)] length_entries [OF Cons.prems(1)] unfolding e1 by simp
  have ld: "count m + 1 \<le> slot_count m * 3 div 4" using Cons.prems(4) by simp
  have s1: "slot_count m1 = slot_count m"
    by (rule trashmap_set_slot_count [OF Cons.prems(1) ld m1(1)])
  have "slot_count m * 3 < 2 ^ 64" using I(2) by simp
  then have s3: "slot_count m * 3 mod 2 ^ 64 = slot_count m * 3" by simp
  have ld': "count m + 1 \<le> slot_count m * 3 mod 2 ^ 64 div 4" unfolding s3 by (rule ld)
  have c59: "count m < 2 ^ 59" using I(8) by simp
  have "max (capacity m) (max 16 (2 * (count m + 1))) \<le>
      max 16 (2 * (count m + length (kv # kvs)))"
    using Cons.prems(5) by simp
  then have al: "\<forall>b\<le>16 * max (capacity m) (max 16 (2 * (count m + 1))). alloc b"
    using Cons.prems(6) by (meson le_trans mult_le_mono2)
  note B = trashmap_set_bounded [OF I(4,5) c59 ld' al]
  have sa: "trashmap_set alloc mem m k v = Some (Inr m1)" unfolding B(1) by (rule m1(1))
  have cp: "capacity m1 \<le> max 16 (2 * count m1)"
    using B(2) [OF m1(1)] Cons.prems(5) unfolding c1 by simp
  have "\<exists>m'. run_operations alloc mem m1 (map (\<lambda>(k, v). Op_set k v) kvs) = Some (Inr m') \<and>
     table_inv mem m' \<and>
     entries m' = entries m1 @ map (\<lambda>(k, v). \<lparr>key = k, value_ref = v\<rparr>) kvs \<and>
     slot_count m' = slot_count m1 \<and> capacity m' \<le> max 16 (2 * count m')"
    by (rule Cons.IH [OF m1(2) _ _ _ cp])
      (use Cons.prems(2,3,4,6) in \<open>simp_all add: e1 c1 s1 kv\<close>)
  then show ?case unfolding kv e1 s1 by (simp add: sa)
qed

lemma run_operations_append:
  "run_operations alloc mem m (xs @ ys) =
     (case run_operations alloc mem m xs of
        None \<Rightarrow> None
      | Some (Inl e) \<Rightarrow> Some (Inl e)
      | Some (Inr m') \<Rightarrow> run_operations alloc mem m' ys)"
  by (induction xs arbitrary: m) (auto split: option.splits sum.splits)

text \<open>
  A table whose probe ring has one empty slot \<open>p0\<close> left, and a table \<open>X\<close> that
  differs from it in that slot, and in arena cells beyond its entries: a probe for a
  key that is not in the table goes on at every other slot.
\<close>

lemma frozen_continue:
  assumes inv: "table_inv mem A" and cnt: "count A + 1 = ring (slot_count A)"
    and p0: "p0 < ring (slot_count A)" "index (slots A ! p0) = UINT32_MAX"
    and sl: "slots X = (slots A)[p0 := s]"
    and it: "\<forall>j<count A. j < length (items X) \<and> items X ! j = entries A ! j"
    and k: "\<not> entries_has mem (entries A) k"
    and p: "p < ring (slot_count A)" "p \<noteq> p0"
  shows "set_stop mem X k v h p = None"
proof -
  note I = table_invD [OF inv]
  have pl: "p < slot_count A" using p(1) ring_le [of "slot_count A"] by simp
  have live: "index (slots A ! p) \<noteq> UINT32_MAX"
    by (rule all_but_one_live [OF inv cnt p0 p])
  from slot_is_item [OF inv pl live]
  obtain j where j: "j < count A" "slots A ! p = item_slot mem (entries A) j" by blast
  have xp: "slots X ! p = slots A ! p" unfolding sl using p(2) by simp
  have u: "unat (index (slots A ! p)) = j"
    unfolding j(2) by (rule item_slot_index) (use j(1) I(8) in simp)
  have "entries A ! j \<in> set (entries A)" using j(1) length_entries [OF inv] by simp
  then have d: "cstr (mem (key (entries A ! j))) \<noteq> cstr (mem k)"
    using k unfolding entries_has_def same_key_def by blast
  show ?thesis
  proof (rule set_stop_continue)
    show "p < length (slots X)" unfolding sl using pl I(3) by simp
    show "index (slots X ! p) \<noteq> UINT32_MAX" unfolding xp by (rule live)
    show "hash (slots X ! p) = h \<longrightarrow>
       unat (index (slots X ! p)) < length (items X) \<and>
       cstr (mem (key (items X ! unat (index (slots X ! p))))) \<noteq> cstr (mem k)"
      unfolding xp u using it j(1) d by simp
  qed
qed

lemma overfull_insert:
  assumes inv: "table_inv mem A" and cnt: "count A + 1 = ring (slot_count A)"
    and p0: "p0 < ring (slot_count A)" "index (slots A ! p0) = UINT32_MAX"
    and sl: "slots X = (slots A)[p0 := s]" "index s = UINT32_MAX"
    and sc: "slot_count X = slot_count A"
    and cap: "length (items X) = capacity X" "capacity X < 2 ^ 60"
    and cx: "count A \<le> count X" "count X + 1 \<le> slot_count A * 3 div 4" "count X < 2 ^ 59"
    and it: "\<forall>j<count A. j < length (items X) \<and> items X ! j = entries A ! j"
    and k: "\<not> entries_has mem (entries A) k"
  shows "\<exists>its. trashmap_set served mem X k v =
       Some (Inr (X\<lparr>capacity := length its,
                    items := its[count X := \<lparr>key = k, value_ref = v\<rparr>],
                    slots := (slots A)[p0 := \<lparr>hash = trashmap_hash (mem k),
                                               index = of_nat (count X)\<rparr>],
                    count := count X + 1\<rparr>)) \<and>
     length its < 2 ^ 60 \<and> count X < length its \<and>
     (\<forall>j<count A. j < length its \<and> its ! j = entries A ! j)"
proof -
  note I = table_invD [OF inv]
  have c1: "(count X + 1) mod 2 ^ 64 = count X + 1" using cx(3) by simp
  have "slot_count A * 3 < 2 ^ 64" using I(2) by simp
  then have s3: "slot_count X * 3 mod 2 ^ 64 = slot_count A * 3" unfolding sc by simp
  have n1: "(count X + 1) mod 2 ^ 64 \<le> 2 ^ 59" unfolding c1 using cx(3) by simp
  have n2: "(count X + 1) mod 2 ^ 64 \<le> slot_count X * 3 mod 2 ^ 64 div 4"
    unfolding c1 s3 using cx(2) .
  from trashmap_reserve_plain [OF cap n1 n2]
  obtain its where
    its: "trashmap_reserve served X 1 = Some (Inr (X\<lparr>capacity := length its, items := its\<rparr>))"
      "take (capacity X) its = items X" "capacity X \<le> length its" "length its < 2 ^ 60"
      "count X + 1 \<le> length its"
    unfolding c1 by blast
  let ?X1 = "X\<lparr>capacity := length its, items := its\<rparr>"
  let ?h = "trashmap_hash (mem k)"
  have it1: "\<forall>j<count A. j < length its \<and> its ! j = entries A ! j"
  proof (intro allI impI)
    fix j assume j: "j < count A"
    then have jl: "j < length (items X)" and e: "items X ! j = entries A ! j"
      using it by simp_all
    have "its ! j = take (capacity X) its ! j" using jl cap(1) by simp
    then show "j < length its \<and> its ! j = entries A ! j"
      using jl cap(1) its(3) e unfolding its(2) by simp
  qed
  have pl: "p0 < length (slots A)" using p0(1) ring_le [of "slot_count A"] I(3) by simp
  have G: "trashmap_set served mem X k v =
      trashmap_set_loop mem ?X1 k v ?h (of_nat (unat ?h mod slot_count ?X1))
        (of_nat (unat ?h mod slot_count ?X1))"
    using I(1) unfolding trashmap_set_def its(1) by (simp add: Let_def sc)
  have "trashmap_set_loop mem ?X1 k v ?h (of_nat (unat ?h mod slot_count ?X1))
        (of_nat (unat ?h mod slot_count ?X1)) =
      Some (Inr (?X1\<lparr>items := (items ?X1)[count ?X1 := \<lparr>key = k, value_ref = v\<rparr>],
                  slots := (slots ?X1)[p0 := \<lparr>hash = ?h, index = of_nat (count ?X1)\<rparr>],
                  count := (count ?X1 + 1) mod 2 ^ 64\<rparr>))"
  proof (rule set_loop_unique_stop [where ?p0.0 = p0])
    show "0 < slot_count ?X1" using I(1) sc by simp
    show "p0 < ring (slot_count ?X1)" using p0(1) sc by simp
    show "set_stop mem ?X1 k v ?h p0 =
      Some (Inr (?X1\<lparr>items := (items ?X1)[count ?X1 := \<lparr>key = k, value_ref = v\<rparr>],
                  slots := (slots ?X1)[p0 := \<lparr>hash = ?h, index = of_nat (count ?X1)\<rparr>],
                  count := (count ?X1 + 1) mod 2 ^ 64\<rparr>))"
      by (rule set_stop_insert) (use pl sl its(5) in simp_all)
    show "\<forall>p<ring (slot_count ?X1). p \<noteq> p0 \<longrightarrow> set_stop mem ?X1 k v ?h p = None"
    proof (intro allI impI)
      fix p assume p: "p < ring (slot_count ?X1)" "p \<noteq> p0"
      show "set_stop mem ?X1 k v ?h p = None"
        by (rule frozen_continue [OF inv cnt p0 _ _ k _ p(2), where s = s])
          (use sl(1) it1 p(1) sc in simp_all)
    qed
  qed
  then have "trashmap_set served mem X k v =
       Some (Inr (X\<lparr>capacity := length its,
                    items := its[count X := \<lparr>key = k, value_ref = v\<rparr>],
                    slots := (slots A)[p0 := \<lparr>hash = ?h, index = of_nat (count X)\<rparr>],
                    count := count X + 1\<rparr>))"
    unfolding G using cx(3) by (simp add: sl(1))
  then show ?thesis using its(4,5) it1 by (intro exI [of _ its]) simp
qed

lemma overfull_assert:
  assumes inv: "table_inv mem A" and cnt: "count A + 1 = ring (slot_count A)"
    and p0: "p0 < ring (slot_count A)" "index (slots A ! p0) = UINT32_MAX"
    and sl: "slots X = (slots A)[p0 := s]" "index s \<noteq> UINT32_MAX" "unat (index s) < count A"
    and sc: "slot_count X = slot_count A"
    and cap: "length (items X) = capacity X" "capacity X < 2 ^ 60"
    and cx: "count X + 1 \<le> slot_count A * 3 div 4" "count X < 2 ^ 59"
    and it: "\<forall>j<count A. j < length (items X) \<and> items X ! j = entries A ! j"
    and k: "\<not> entries_has mem (entries A) k"
  shows "trashmap_set served mem X k v = Some (Inl Assert_Failed)"
proof -
  note I = table_invD [OF inv]
  have c1: "(count X + 1) mod 2 ^ 64 = count X + 1" using cx(2) by simp
  have "slot_count A * 3 < 2 ^ 64" using I(2) by simp
  then have s3: "slot_count X * 3 mod 2 ^ 64 = slot_count A * 3" unfolding sc by simp
  have n1: "(count X + 1) mod 2 ^ 64 \<le> 2 ^ 59" unfolding c1 using cx(2) by simp
  have n2: "(count X + 1) mod 2 ^ 64 \<le> slot_count X * 3 mod 2 ^ 64 div 4"
    unfolding c1 s3 using cx(1) .
  from trashmap_reserve_plain [OF cap n1 n2]
  obtain its where
    its: "trashmap_reserve served X 1 = Some (Inr (X\<lparr>capacity := length its, items := its\<rparr>))"
      "take (capacity X) its = items X" "capacity X \<le> length its"
    by blast
  let ?X1 = "X\<lparr>capacity := length its, items := its\<rparr>"
  let ?h = "trashmap_hash (mem k)"
  have it1: "\<forall>j<count A. j < length its \<and> its ! j = entries A ! j"
  proof (intro allI impI)
    fix j assume j: "j < count A"
    then have jl: "j < length (items X)" and e: "items X ! j = entries A ! j"
      using it by simp_all
    have "its ! j = take (capacity X) its ! j" using jl cap(1) by simp
    then show "j < length its \<and> its ! j = entries A ! j"
      using jl cap(1) its(3) e unfolding its(2) by simp
  qed
  have pl: "p0 < length (slots A)" using p0(1) ring_le [of "slot_count A"] I(3) by simp
  have G: "trashmap_set served mem X k v =
      trashmap_set_loop mem ?X1 k v ?h (of_nat (unat ?h mod slot_count ?X1))
        (of_nat (unat ?h mod slot_count ?X1))"
    using I(1) unfolding trashmap_set_def its(1) by (simp add: Let_def sc)
  have "trashmap_set_loop mem ?X1 k v ?h (of_nat (unat ?h mod slot_count ?X1))
        (of_nat (unat ?h mod slot_count ?X1)) = Some (Inl Assert_Failed)"
  proof (rule set_loop_all_continue)
    show "0 < slot_count ?X1" using I(1) sc by simp
    show "\<forall>p<ring (slot_count ?X1). set_stop mem ?X1 k v ?h p = None"
    proof (intro allI impI)
      fix p assume p: "p < ring (slot_count ?X1)"
      show "set_stop mem ?X1 k v ?h p = None"
      proof (cases "p = p0")
        case False
        show ?thesis
          by (rule frozen_continue [OF inv cnt p0 _ _ k _ False, where s = s])
            (use sl(1) it1 p sc in simp_all)
      next
        case True
        let ?j = "unat (index s)"
        have "entries A ! ?j \<in> set (entries A)" using sl(3) length_entries [OF inv] by simp
        then have d: "cstr (mem (key (entries A ! ?j))) \<noteq> cstr (mem k)"
          using k unfolding entries_has_def same_key_def by blast
        show ?thesis unfolding True
          by (rule set_stop_continue) (use pl sl it1 d in simp_all)
      qed
    qed
  qed
  then show ?thesis unfolding G .
qed

lemma example_keys_absent:
  assumes "K \<le> k"
  shows "\<not> entries_has example_mem (map (\<lambda>(k, v). \<lparr>key = k, value_ref = v\<rparr>)
            (map (\<lambda>i. (i, 5)) [1..<K])) k"
  using assms by (auto simp: entries_has_def same_key_def cstr_example_mem_eq_iff)

lemma example_keys_distinct:
  "distinct (map (\<lambda>(k, v). cstr (example_mem k)) (map (\<lambda>i. (i, 5 :: nat)) [1..<K]))"
proof -
  have "map (\<lambda>(k, v). cstr (example_mem k)) (map (\<lambda>i. (i, 5 :: nat)) [1..<K]) =
      map (\<lambda>k. cstr (example_mem k)) [1..<K]"
    by (simp add: comp_def)
  moreover have "inj_on (\<lambda>k. cstr (example_mem k)) (set [1..<K])"
    by (rule inj_onI) (simp add: cstr_example_mem_eq_iff)
  then have "distinct (map (\<lambda>k. cstr (example_mem k)) [1..<K])"
    by (simp add: distinct_map)
  ultimately show ?thesis by (simp only:)
qed

lemma many_sets_split:
  assumes "1 \<le> K"
  shows "many_sets (K + 2) =
     map (\<lambda>(k, v). Op_set k v) (map (\<lambda>i. (i, 5)) [1..<K]) @
     [Op_set K 5, Op_set (K + 1) 5, Op_set (K + 2) 5]"
proof -
  have "[1..<K + 2 + 1] = [1..<K] @ [K, K + 1, K + 2]"
    using assms by (simp add: upt_rec [of K] upt_rec [of "Suc K"] upt_rec [of "Suc (Suc K)"]
        upt_add_eq_append [of 1 K 3, simplified] numeral_3_eq_3)
  then show ?thesis unfolding many_sets_def by (simp add: comp_def)
qed

text \<open>
  C7. On every table with at most \<open>2 ^ 32\<close> entries that a sequence of calls on a
  fresh table returns, for every initial slot count and whatever the calls reserve,
  \<^verbatim>\<open>trashmap_set\<close> terminates, and not by the assertion after its probe loop: the
  loop does not wrap.
\<close>

theorem set_assertion_unreachable:
  assumes "1 \<le> n" "n < 2 ^ 64"
    "init_and_run alloc mem n xs = Some (Inr m)" "count m \<le> 2 ^ 32"
  shows "\<exists>r. trashmap_set alloc' mem m k v = Some r \<and> r \<noteq> Inl Assert_Failed"
proof -
  from assms(3) obtain m0 where m0: "trashmap_init alloc n = Inr m0"
      "run_operations alloc mem m0 xs = Some (Inr m)"
    by (auto simp: init_and_run_def split: sum.splits)
  have "load_inv m0" by (rule trashmap_init_load_inv [OF _ assms(2) m0(1)]) (use assms(1) in simp)
  then have "load_inv m" using m0(2) by (rule run_operations_load_inv)
  from trashmap_set_result [OF this, of alloc' mem k v] show ?thesis using assms(4) by blast
qed

theorem set_assertion_unreachable_witness:
  "init_and_run example_alloc example_mem 1
     [Op_clear, Op_set 2 5, Op_get 2, Op_reserve 1, Op_has 3, Op_set 3 6] =
     Some (Inr example_table_2) \<and>
   count example_table_2 \<le> 2 ^ 32 \<and>
   (\<exists>r. trashmap_set example_alloc example_mem example_table_2 4 7 = Some r \<and>
      r \<noteq> Inl Assert_Failed)"
proof -
  have p: "(1 :: nat) \<le> 1" "(1 :: nat) < 2 ^ 64" by simp_all
  have c: "count example_table_2 \<le> 2 ^ 32" by (simp add: example_table_2_def)
  from set_assertion_unreachable [OF p example_run_3 c]
  show ?thesis using example_run_3 c by simp
qed

text \<open>
  C7, with \<open>2 ^ 32 + 2\<close> keys in a table of \<open>2 ^ 33\<close> slots: the probe ring has
  \<open>2 ^ 32\<close> slots, and the load factor never asks for more slots. The key number
  \<open>2 ^ 32\<close> gets the item index \<open>2 ^ 32 - 1\<close>, which is the sentinel, so its slot still
  reads as empty; the next key takes this last slot with the index 0, and the table has
  \<open>2 ^ 32 + 1\<close> entries; for the key after it every slot of the ring is occupied by
  another key, the probe loop wraps, and \<^verbatim>\<open>trashmap_set\<close> reaches its assertion.
\<close>

theorem set_assertion_reached_counterexample:
  "init_and_run large_alloc example_mem (2 ^ 33) (many_sets (2 ^ 32 + 2)) =
     Some (Inl Assert_Failed)"
proof -
  define K :: nat where "K = 2 ^ 32"
  define kvs where "kvs = map (\<lambda>i. (i, 5 :: nat)) [1..<K]"
  have Kv: "K = 4294967296" unfolding K_def by simp
  have ms: "many_sets (2 ^ 32 + 2) =
      map (\<lambda>(k, v). Op_set k v) kvs @ [Op_set K 5, Op_set (K + 1) 5, Op_set (K + 2) 5]"
    unfolding K_def [symmetric] kvs_def by (rule many_sets_split) (simp add: Kv)
  have lk: "length kvs = K - 1" unfolding kvs_def by simp
  have al: "large_alloc b" if "b \<le> 2 ^ 40" for b
    using that by (simp add: large_alloc_def)
  from trashmap_init_correct [of "2 ^ 33" example_mem]
  obtain m0 where m0: "trashmap_init served (2 ^ 33) = Inr m0" "table_inv example_mem m0"
      "entries m0 = []" "slot_count m0 = 2 ^ 33" "count m0 = 0" "capacity m0 = 0"
    by auto
  have "large_alloc (2 ^ 33 * 8 mod 2 ^ 64)" by (rule al) simp
  then have "trashmap_init large_alloc (2 ^ 33) = trashmap_init served (2 ^ 33)"
    by (simp add: trashmap_init_def Let_def alloc_slots_def)
  then have i0: "trashmap_init large_alloc (2 ^ 33) = Inr m0" unfolding m0(1) .
  have d: "distinct (map (\<lambda>it. cstr (example_mem (key it))) (entries m0) @
      map (\<lambda>(k, v). cstr (example_mem k)) kvs)"
    unfolding m0(3) kvs_def using example_keys_distinct [of K] by simp
  have c32: "count m0 + length kvs < 2 ^ 32" unfolding m0(5) lk Kv by simp
  have cl: "count m0 + length kvs \<le> slot_count m0 * 3 div 4" unfolding m0(4,5) lk Kv by simp
  have cp0: "capacity m0 \<le> max 16 (2 * count m0)" unfolding m0(5,6) by simp
  have al0: "\<forall>b\<le>16 * max 16 (2 * (count m0 + length kvs)). large_alloc b"
    unfolding m0(5) lk Kv by (intro allI impI al) simp
  from run_sets_bounded [OF m0(2) d c32 cl cp0 al0]
  obtain A where A: "run_operations large_alloc example_mem m0
        (map (\<lambda>(k, v). Op_set k v) kvs) = Some (Inr A)" "table_inv example_mem A"
      "entries A = map (\<lambda>(k, v). \<lparr>key = k, value_ref = v\<rparr>) kvs" "slot_count A = 2 ^ 33"
      "capacity A \<le> max 16 (2 * count A)"
    unfolding m0 by auto
  note I = table_invD [OF A(2)]
  have cA: "count A = K - 1"
    using length_entries [OF A(2)] unfolding A(3) by (simp add: lk)
  have cAv: "count A = 4294967295" unfolding cA Kv by simp
  have rg: "ring (slot_count A) = 4294967296" unfolding A(4) by (simp add: ring_def)
  have cnt: "count A + 1 = ring (slot_count A)" unfolding rg cAv by simp
  have ld: "slot_count A * 3 div 4 = 6442450944" unfolding A(4) by simp
  have absent: "\<not> entries_has example_mem (entries A) k" if "K \<le> k" for k
    unfolding A(3) kvs_def using that by (rule example_keys_absent)
  have "count A < ring (slot_count A)" using cnt by simp
  from stop_exists_room [OF A(2) this, of 0]
  obtain i where i: "index (slots A !
     ((home (slot_count A) 0 + i) mod ring (slot_count A))) = UINT32_MAX" by blast
  define p0 where "p0 = (home (slot_count A) 0 + i) mod ring (slot_count A)"
  have p0: "p0 < ring (slot_count A)" "index (slots A ! p0) = UINT32_MAX"
    unfolding p0_def using pos_less(1) [OF A(2)] i by simp_all
  have itA: "\<forall>j<count A. j < length (items A) \<and> items A ! j = entries A ! j"
    using I(4,6) entries_nth [OF A(2)] by simp
  have "\<exists>its. trashmap_set served example_mem A K 5 =
       Some (Inr (A\<lparr>capacity := length its,
                    items := its[count A := \<lparr>key = K, value_ref = 5\<rparr>],
                    slots := (slots A)[p0 := \<lparr>hash = trashmap_hash (example_mem K),
                                               index = of_nat (count A)\<rparr>],
                    count := count A + 1\<rparr>)) \<and>
     length its < 2 ^ 60 \<and> count A < length its \<and>
     (\<forall>j<count A. j < length its \<and> its ! j = entries A ! j)"
    by (rule overfull_insert [OF A(2) cnt p0, where X = A and s = "slots A ! p0"])
      (use p0(2) I(4,5) itA absent [of K] in \<open>simp_all add: ld cAv\<close>)
  then obtain its1 where its1: "trashmap_set served example_mem A K 5 =
       Some (Inr (A\<lparr>capacity := length its1,
                    items := its1[count A := \<lparr>key = K, value_ref = 5\<rparr>],
                    slots := (slots A)[p0 := \<lparr>hash = trashmap_hash (example_mem K),
                                               index = of_nat (count A)\<rparr>],
                    count := count A + 1\<rparr>))"
      "length its1 < 2 ^ 60" "count A < length its1"
      "\<forall>j<count A. j < length its1 \<and> its1 ! j = entries A ! j"
    by blast
  define B where "B = A\<lparr>capacity := length its1,
                    items := its1[count A := \<lparr>key = K, value_ref = 5\<rparr>],
                    slots := (slots A)[p0 := \<lparr>hash = trashmap_hash (example_mem K),
                                               index = of_nat (count A)\<rparr>],
                    count := count A + 1\<rparr>"
  have fB: "slots B = (slots A)[p0 := \<lparr>hash = trashmap_hash (example_mem K),
                                               index = of_nat (count A)\<rparr>]"
      "slot_count B = slot_count A" "capacity B = length its1"
      "items B = its1[count A := \<lparr>key = K, value_ref = 5\<rparr>]" "count B = 4294967296"
    unfolding B_def by (simp_all add: cAv)
  have sB': "trashmap_set served example_mem A K 5 = Some (Inr B)"
    unfolding B_def by (rule its1(1))
  have s3: "slot_count A * 3 mod 2 ^ 64 div 4 = 6442450944" unfolding A(4) by simp
  have cpA: "capacity A \<le> 8589934590" using A(5) unfolding cAv by simp
  have alA: "\<forall>b\<le>16 * max (capacity A) (max 16 (2 * (count A + 1))). large_alloc b"
    using cpA unfolding cAv by (intro allI impI al) simp
  have lA: "count A + 1 \<le> slot_count A * 3 mod 2 ^ 64 div 4" unfolding s3 cAv by simp
  have c59A: "count A < 2 ^ 59" unfolding cAv by simp
  note bA = trashmap_set_bounded [OF I(4,5) c59A lA alA]
  have sB: "trashmap_set large_alloc example_mem A K 5 = Some (Inr B)"
    unfolding bA(1) by (rule sB')
  have cpB: "capacity B \<le> 8589934592" using bA(2) [OF sB'] cpA unfolding cAv by simp
  have "\<exists>its. trashmap_set served example_mem B (K + 1) 5 =
       Some (Inr (B\<lparr>capacity := length its,
                    items := its[count B := \<lparr>key = K + 1, value_ref = 5\<rparr>],
                    slots := (slots A)[p0 := \<lparr>hash = trashmap_hash (example_mem (K + 1)),
                                               index = of_nat (count B)\<rparr>],
                    count := count B + 1\<rparr>)) \<and>
     length its < 2 ^ 60 \<and> count B < length its \<and>
     (\<forall>j<count A. j < length its \<and> its ! j = entries A ! j)"
    by (rule overfull_insert [OF A(2) cnt p0 fB(1)])
      (use its1(2,3,4) absent [of "K + 1"] in \<open>simp_all add: fB ld cAv UINT32_MAX_def\<close>)
  then obtain its2 where its2: "trashmap_set served example_mem B (K + 1) 5 =
       Some (Inr (B\<lparr>capacity := length its2,
                    items := its2[count B := \<lparr>key = K + 1, value_ref = 5\<rparr>],
                    slots := (slots A)[p0 := \<lparr>hash = trashmap_hash (example_mem (K + 1)),
                                               index = of_nat (count B)\<rparr>],
                    count := count B + 1\<rparr>))"
      "length its2 < 2 ^ 60" "count B < length its2"
      "\<forall>j<count A. j < length its2 \<and> its2 ! j = entries A ! j"
    by blast
  define C where "C = B\<lparr>capacity := length its2,
                    items := its2[count B := \<lparr>key = K + 1, value_ref = 5\<rparr>],
                    slots := (slots A)[p0 := \<lparr>hash = trashmap_hash (example_mem (K + 1)),
                                               index = of_nat (count B)\<rparr>],
                    count := count B + 1\<rparr>"
  have fC: "slots C = (slots A)[p0 := \<lparr>hash = trashmap_hash (example_mem (K + 1)),
                                               index = of_nat (count B)\<rparr>]"
      "slot_count C = slot_count A" "capacity C = length its2"
      "items C = its2[count B := \<lparr>key = K + 1, value_ref = 5\<rparr>]" "count C = 4294967297"
    unfolding C_def by (simp_all add: fB)
  have sC': "trashmap_set served example_mem B (K + 1) 5 = Some (Inr C)"
    unfolding C_def by (rule its2(1))
  have lenB: "length (items B) = capacity B" unfolding fB by simp
  have capB: "capacity B < 2 ^ 60" using cpB by simp
  have alB: "\<forall>b\<le>16 * max (capacity B) (max 16 (2 * (count B + 1))). large_alloc b"
    using cpB unfolding fB(5) by (intro allI impI al) simp
  have lB: "count B + 1 \<le> slot_count B * 3 mod 2 ^ 64 div 4" unfolding fB(2) s3 fB(5) by simp
  have c59B: "count B < 2 ^ 59" unfolding fB(5) by simp
  note bB = trashmap_set_bounded [OF lenB capB c59B lB alB]
  have sC: "trashmap_set large_alloc example_mem B (K + 1) 5 = Some (Inr C)"
    unfolding bB(1) by (rule sC')
  have cpC: "capacity C \<le> 8589934594" using bB(2) [OF sC'] cpB unfolding fB(5) by simp
  have sD': "trashmap_set served example_mem C (K + 2) 5 = Some (Inl Assert_Failed)"
    by (rule overfull_assert [OF A(2) cnt p0 fC(1)])
      (use its2(2,3,4) absent [of "K + 2"] in \<open>simp_all add: fC fB ld cAv UINT32_MAX_def\<close>)
  have lenC: "length (items C) = capacity C" unfolding fC by simp
  have capC: "capacity C < 2 ^ 60" using cpC by simp
  have alC: "\<forall>b\<le>16 * max (capacity C) (max 16 (2 * (count C + 1))). large_alloc b"
    using cpC unfolding fC(5) by (intro allI impI al) simp
  have lC: "count C + 1 \<le> slot_count C * 3 mod 2 ^ 64 div 4" unfolding fC(2) s3 fC(5) by simp
  have c59C: "count C < 2 ^ 59" unfolding fC(5) by simp
  have sD: "trashmap_set large_alloc example_mem C (K + 2) 5 = Some (Inl Assert_Failed)"
    unfolding trashmap_set_bounded(1) [OF lenC capC c59C lC alC] by (rule sD')
  show ?thesis
    unfolding init_and_run_def i0 ms run_operations_append
    by (simp only: A(1) sB sC sD option.case sum.case run_operations.simps
        apply_operation.simps)
qed

end
